theory Spec2Isabelle
  imports Complex_Main "HOL-Library.Sublist"
begin

section \<open>JavaScript values used by the front end\<close>

text \<open>
  JavaScript numbers are modelled as reals, \<open>T | null\<close> as \<open>T option\<close>.  A string is
  truthy exactly when it is not empty.
\<close>

datatype jsval = JNull | JNum real | JStr string

definition truthy :: "string \<Rightarrow> bool" where
  "truthy s = (s \<noteq> [])"

text \<open>The list without its element at position \<open>i\<close>.\<close>

definition remove_nth :: "nat \<Rightarrow> 'a list \<Rightarrow> 'a list" where
  "remove_nth i xs = take i xs @ drop (Suc i) xs"

subsection \<open>An insertion-ordered \<open>Map<string, string>\<close>\<close>

text \<open>
  A JavaScript \<open>Map\<close> iterates in insertion order; \<open>set\<close> on a present key keeps the
  position of the key, \<open>set\<close> on a new key appends the entry.  A \<open>Map\<close> holds a key
  once; \<open>delete\<close> leaves no entry for the key.
\<close>

type_synonym jsmap = "(string \<times> string) list"

fun map_get :: "jsmap \<Rightarrow> string \<Rightarrow> string option" where
  "map_get [] k = None"
| "map_get ((k', v) # m) k = (if k' = k then Some v else map_get m k)"

fun map_set :: "jsmap \<Rightarrow> string \<Rightarrow> string \<Rightarrow> jsmap" where
  "map_set [] k v = [(k, v)]"
| "map_set ((k', v') # m) k v = (if k' = k then (k, v) # m else (k', v') # map_set m k v)"

definition map_delete :: "jsmap \<Rightarrow> string \<Rightarrow> jsmap" where
  "map_delete m k = filter (\<lambda>e. fst e \<noteq> k) m"

definition map_has :: "jsmap \<Rightarrow> string \<Rightarrow> bool" where
  "map_has m k = (map_get m k \<noteq> None)"

definition map_keys :: "jsmap \<Rightarrow> string list" where
  "map_keys m = map fst m"

section \<open>Dashboard: playback tracking\<close>

text \<open>
  The fields \<open>id\<close>, \<open>name\<close> and \<open>volume\<close> of \<open>Sound\<close> are \<open>sound_id\<close>, \<open>sound_name\<close>
  and \<open>sound_volume\<close> here.
\<close>

record Sound =
  sound_id :: string
  sound_name :: string
  file_path :: string
  category_id :: string
  icon :: "string option"
  sound_volume :: "real option"
  is_favorite :: bool
  trim_start_ms :: "real option"
  trim_end_ms :: "real option"

record PlaybackProgress =
  playback_id :: string
  elapsed_ms :: real
  total_ms :: real
  progress_pct :: real

record ActiveWaveform =
  soundId :: string
  soundName :: string
  filePath :: string
  currentTimeMs :: real
  durationMs :: real
  trimStartMs :: "real option"
  trimEndMs :: "real option"

text \<open>A callback handed to \<open>setTimeout\<close> and not yet run.\<close>

datatype timer_action = Reset_exiting | Clear_waveform

text \<open>
  The component state of \<open>Dashboard\<close> that the audio handlers read and write: the
  \<open>useState\<close> cells, the \<open>playingSoundsRef\<close> map (sound id to playback id) and the
  pending timeouts.  State updaters are applied in the order they are queued.  The
  state of the modal, of the category tabs and of drag and drop is left out, and with it
  the three listeners for file drops.
\<close>

record dashboard =
  volume :: real
  playingSoundIds :: "string set"
  toastMessage :: "string option"
  activeWaveform :: "ActiveWaveform option"
  isWaveformExiting :: bool
  playingSoundsRef :: jsmap
  timers :: "(nat \<times> timer_action) list"

definition initial_dashboard :: dashboard where
  "initial_dashboard =
     \<lparr>volume = 0.5, playingSoundIds = {}, toastMessage = None, activeWaveform = None,
      isWaveformExiting = False, playingSoundsRef = [], timers = []\<rparr>"

text \<open>
  What a handler asks of the outside world: a backend command with its argument object,
  or a timeout it waits for.  A trace pairs each request with the component state at the
  instant the request is made.
\<close>

datatype command = Invoke string "(string \<times> jsval) list" | SetTimeout nat

type_synonym trace = "(command \<times> dashboard) list"

definition showToast :: "string \<Rightarrow> dashboard \<Rightarrow> dashboard" where
  "showToast message st = st\<lparr>toastMessage := Some message\<rparr>"

definition nullable :: "real option \<Rightarrow> jsval" where
  "nullable v = (case v of None \<Rightarrow> JNull | Some n \<Rightarrow> JNum n)"

definition waveform_for :: "Sound \<Rightarrow> ActiveWaveform" where
  "waveform_for sound =
     \<lparr>soundId = sound_id sound, soundName = sound_name sound, filePath = file_path sound,
      currentTimeMs = 0, durationMs = 0,
      trimStartMs = trim_start_ms sound, trimEndMs = trim_end_ms sound\<rparr>"

text \<open>The "clean up tracking" block that \<open>playSound\<close> and the completion handler share.\<close>

definition untrack :: "string \<Rightarrow> dashboard \<Rightarrow> dashboard" where
  "untrack sid st =
     st\<lparr>playingSoundsRef := map_delete (playingSoundsRef st) sid,
        playingSoundIds := playingSoundIds st - {sid}\<rparr>"

subsection \<open>\<open>playSound\<close>\<close>

text \<open>
  The restart block.  \<open>stop_error\<close> is the backend's answer to \<open>stop_playback\<close>:
  \<open>None\<close> when the promise resolves, \<open>Some e\<close> when it rejects with \<open>e\<close>.
\<close>

definition playSound_restart :: "Sound \<Rightarrow> string option \<Rightarrow> dashboard \<Rightarrow> dashboard \<times> trace" where
  "playSound_restart sound stop_error st =
     (case map_get (playingSoundsRef st) (sound_id sound) of
        None \<Rightarrow> (st, [])
      | Some currentPlaybackId \<Rightarrow>
          if truthy currentPlaybackId then
            (case stop_error of
               None \<Rightarrow>
                 (let st1 = untrack (sound_id sound) st
                  in (st1, [(Invoke ''stop_playback'' [(''playbackId'', JStr currentPlaybackId)], st),
                            (SetTimeout 100, st1)]))
             | Some err \<Rightarrow>
                 (st, [(Invoke ''stop_playback'' [(''playbackId'', JStr currentPlaybackId)], st)]))
          else (st, []))"

definition play_args :: "string \<Rightarrow> string \<Rightarrow> Sound \<Rightarrow> real \<Rightarrow> (string \<times> jsval) list" where
  "play_args device1 device2 sound vol =
     [(''filePath'', JStr (file_path sound)),
      (''deviceId1'', JStr device1),
      (''deviceId2'', JStr device2),
      (''volume'', JNum (case sound_volume sound of Some v \<Rightarrow> v | None \<Rightarrow> vol)),
      (''trimStartMs'', nullable (trim_start_ms sound)),
      (''trimEndMs'', nullable (trim_end_ms sound))]"

text \<open>
  The "start playback" block, in the two halves that the \<open>await\<close> of
  \<open>play_dual_output\<close> separates.  \<open>play_result\<close> is the backend's answer:
  \<open>Inr playbackId\<close> or \<open>Inl error\<close>.
\<close>

definition mark_playing :: "Sound \<Rightarrow> dashboard \<Rightarrow> dashboard" where
  "mark_playing sound st = st\<lparr>playingSoundIds := insert (sound_id sound) (playingSoundIds st)\<rparr>"

definition play_settled :: "Sound \<Rightarrow> string + string \<Rightarrow> dashboard \<Rightarrow> dashboard" where
  "play_settled sound play_result st1 =
     (case play_result of
        Inr playbackId \<Rightarrow>
          (let st2 = st1\<lparr>playingSoundsRef :=
                           map_set (playingSoundsRef st1) (sound_id sound) playbackId\<rparr>
           in st2\<lparr>activeWaveform :=
                    (case activeWaveform st2 of
                       None \<Rightarrow> Some (waveform_for sound)
                     | Some prev \<Rightarrow>
                         if \<not> map_has (playingSoundsRef st2) (soundId prev)
                         then Some (waveform_for sound)
                         else Some (waveform_for sound))\<rparr>)
      | Inl error \<Rightarrow> untrack (sound_id sound) (showToast (''Error: '' @ error) st1))"

definition playSound_start ::
  "string \<Rightarrow> string \<Rightarrow> Sound \<Rightarrow> string + string \<Rightarrow> dashboard \<Rightarrow> dashboard \<times> trace" where
  "playSound_start device1 device2 sound play_result st =
     (let st1 = mark_playing sound st;
          request = (Invoke ''play_dual_output'' (play_args device1 device2 sound (volume st)), st1)
      in (play_settled sound play_result st1, [request]))"

definition playSound ::
  "string \<Rightarrow> string \<Rightarrow> Sound \<Rightarrow> string option \<Rightarrow> string + string \<Rightarrow> dashboard
     \<Rightarrow> dashboard \<times> trace" where
  "playSound device1 device2 sound stop_error play_result st =
     (if \<not> truthy device1 \<or> \<not> truthy device2
      then (showToast ''Please configure audio devices in Settings first'' st, [])
      else
        (let (st1, t1) = playSound_restart sound stop_error st;
             (st2, t2) = playSound_start device1 device2 sound play_result st1
         in (st2, t1 @ t2)))"

subsection \<open>\<open>stopAllAudio\<close>\<close>

definition stopAllAudio :: "string option \<Rightarrow> dashboard \<Rightarrow> dashboard \<times> trace" where
  "stopAllAudio stop_error st =
     (case stop_error of
        None \<Rightarrow>
          (showToast ''All audio stopped''
             (st\<lparr>playingSoundsRef := [], playingSoundIds := {}, isWaveformExiting := True,
                 timers := timers st @ [(300, Clear_waveform)]\<rparr>),
           [(Invoke ''stop_all_audio'' [], st)])
      | Some error \<Rightarrow>
          (showToast (''Stop Error: '' @ error) st, [(Invoke ''stop_all_audio'' [], st)]))"

fun run_timer :: "timer_action \<Rightarrow> dashboard \<Rightarrow> dashboard" where
  "run_timer Reset_exiting st = st\<lparr>isWaveformExiting := False\<rparr>"
| "run_timer Clear_waveform st = st\<lparr>activeWaveform := None, isWaveformExiting := False\<rparr>"

subsection \<open>Event listeners\<close>

text \<open>The \<open>for ... of entries()\<close> loop with \<open>break\<close>: the first sound id tracked with the playback id.\<close>

fun find_sound_id :: "jsmap \<Rightarrow> string \<Rightarrow> string option" where
  "find_sound_id [] p = None"
| "find_sound_id ((sid, pid) # m) p = (if pid = p then Some sid else find_sound_id m p)"

text \<open>
  The \<open>playback-complete\<close> listener.  \<open>sounds\<close> is \<open>soundLibrary.sounds\<close> as the
  listener's closure holds it.
\<close>

definition playback_complete :: "Sound list \<Rightarrow> string \<Rightarrow> dashboard \<Rightarrow> dashboard" where
  "playback_complete sounds completedPlaybackId st =
     (case find_sound_id (playingSoundsRef st) completedPlaybackId of
        None \<Rightarrow> st
      | Some sid \<Rightarrow>
          if \<not> truthy sid then st
          else
            (let st1 = untrack sid st
             in case activeWaveform st1 of
                  None \<Rightarrow> st1
                | Some prev \<Rightarrow>
                    if soundId prev = sid then
                      (let otherPlayingSounds =
                             filter (\<lambda>k. k \<noteq> sid) (map_keys (playingSoundsRef st1))
                       in case (if otherPlayingSounds \<noteq> []
                                then find (\<lambda>s. sound_id s = last otherPlayingSounds) sounds
                                else None) of
                            Some nextSound \<Rightarrow> st1\<lparr>activeWaveform := Some (waveform_for nextSound)\<rparr>
                          | None \<Rightarrow>
                              st1\<lparr>activeWaveform := None, isWaveformExiting := True,
                                  timers := timers st1 @ [(300, Reset_exiting)]\<rparr>)
                    else st1))"

text \<open>The \<open>playback-progress\<close> listener.\<close>

definition playback_progress :: "PlaybackProgress \<Rightarrow> dashboard \<Rightarrow> dashboard" where
  "playback_progress ev st =
     (case find_sound_id (playingSoundsRef st) (playback_id ev) of
        None \<Rightarrow> st
      | Some sid \<Rightarrow>
          (case activeWaveform st of
             None \<Rightarrow> st
           | Some prev \<Rightarrow>
               if soundId prev = sid
               then st\<lparr>activeWaveform :=
                       Some (prev\<lparr>currentTimeMs := elapsed_ms ev, durationMs := total_ms ev\<rparr>)\<rparr>
               else st))"

text \<open>
  The audio listeners the component registers with \<open>listen\<close>, by event name.  An event
  reaches the listeners registered under its own name and no others.
\<close>

datatype payload = PString string | PProgress PlaybackProgress

datatype listener =
    On_string "string \<Rightarrow> dashboard \<Rightarrow> dashboard"
  | On_progress "PlaybackProgress \<Rightarrow> dashboard \<Rightarrow> dashboard"

definition Dashboard_listeners :: "Sound list \<Rightarrow> (string \<times> listener) list" where
  "Dashboard_listeners sounds =
     [(''audio-decode-complete'', On_string (\<lambda>p st. st)),
      (''audio-decode-error'', On_string (\<lambda>p. showToast (''Decode Error: '' @ p))),
      (''playback-complete'', On_string (playback_complete sounds)),
      (''playback-progress'', On_progress playback_progress)]"

fun deliver :: "listener \<Rightarrow> payload \<Rightarrow> dashboard \<Rightarrow> dashboard" where
  "deliver (On_string h) (PString p) st = h p st"
| "deliver (On_progress h) (PProgress p) st = h p st"
| "deliver _ _ st = st"

fun emit_to :: "(string \<times> listener) list \<Rightarrow> string \<Rightarrow> payload \<Rightarrow> dashboard \<Rightarrow> dashboard" where
  "emit_to [] name p st = st"
| "emit_to ((n, h) # ls) name p st =
     emit_to ls name p (if n = name then deliver h p st else st)"

definition emit :: "Sound list \<Rightarrow> string \<Rightarrow> payload \<Rightarrow> dashboard \<Rightarrow> dashboard" where
  "emit sounds name p st = emit_to (Dashboard_listeners sounds) name p st"

text \<open>
  The tracking invariant: the map holds one entry per sound id, and every sound id shown
  as playing has an entry.
\<close>

definition tracking_inv :: "dashboard \<Rightarrow> bool" where
  "tracking_inv st =
     (distinct (map_keys (playingSoundsRef st)) \<and>
      playingSoundIds st \<subseteq> set (map_keys (playingSoundsRef st)))"

text \<open>The sound ids in the playing set that have no entry in the map.\<close>

definition untracked :: "dashboard \<Rightarrow> string set" where
  "untracked st = playingSoundIds st - set (map_keys (playingSoundsRef st))"

subsection \<open>Interleaved execution\<close>

text \<open>
  \<open>playSound\<close> and \<open>stopAllAudio\<close> are async functions: while one of their calls
  waits for the backend or for a timeout, other handlers run.  A suspended call records
  what its closure holds (the two device ids, the volume, the sound) and what it waits
  for.
\<close>

datatype suspended_call =
    Awaiting_stop string string real Sound
  | Awaiting_cleanup string string real Sound
  | Awaiting_play Sound
  | Awaiting_stop_all

record app =
  dash :: dashboard
  calls :: "suspended_call list"
  requests :: "command list"

definition initial_app :: app where
  "initial_app = \<lparr>dash = initial_dashboard, calls = [], requests = []\<rparr>"

datatype app_event =
    PlaySound string string Sound
  | Stop_playback_settled nat "string option"
  | Cleanup_wait_over nat
  | Play_dual_output_settled nat "string + string"
  | StopAllAudio
  | Stop_all_audio_settled nat "string option"
  | Emitted string payload
  | Timer_fired nat

text \<open>The first half of the "start playback" block, for the call at position \<open>i\<close>.\<close>

definition begin_play :: "nat \<Rightarrow> string \<Rightarrow> string \<Rightarrow> real \<Rightarrow> Sound \<Rightarrow> app \<Rightarrow> app" where
  "begin_play i device1 device2 vol sound a =
     a\<lparr>dash := mark_playing sound (dash a),
       calls := (calls a)[i := Awaiting_play sound],
       requests := requests a @ [Invoke ''play_dual_output'' (play_args device1 device2 sound vol)]\<rparr>"

text \<open>
  One step of the component: a handler starts, or a suspended call goes on to its next
  \<open>await\<close> or to its end.  A settlement for a call that does not wait for it does not
  occur and is skipped.
\<close>

fun app_step :: "Sound list \<Rightarrow> app \<Rightarrow> app_event \<Rightarrow> app" where
  "app_step sounds a (PlaySound device1 device2 sound) =
     (if \<not> truthy device1 \<or> \<not> truthy device2
      then a\<lparr>dash := showToast ''Please configure audio devices in Settings first'' (dash a)\<rparr>
      else
        (let i = length (calls a);
             fresh = begin_play i device1 device2 (volume (dash a)) sound
                       (a\<lparr>calls := calls a @ [Awaiting_play sound]\<rparr>)
         in case map_get (playingSoundsRef (dash a)) (sound_id sound) of
              None \<Rightarrow> fresh
            | Some currentPlaybackId \<Rightarrow>
                if truthy currentPlaybackId then
                  a\<lparr>calls := calls a @ [Awaiting_stop device1 device2 (volume (dash a)) sound],
                    requests := requests a @
                      [Invoke ''stop_playback'' [(''playbackId'', JStr currentPlaybackId)]]\<rparr>
                else fresh))"
| "app_step sounds a (Stop_playback_settled i stop_error) =
     (if i < length (calls a) then
        (case calls a ! i of
           Awaiting_stop device1 device2 vol sound \<Rightarrow>
             (case stop_error of
                None \<Rightarrow>
                  a\<lparr>dash := untrack (sound_id sound) (dash a),
                    calls := (calls a)[i := Awaiting_cleanup device1 device2 vol sound],
                    requests := requests a @ [SetTimeout 100]\<rparr>
              | Some err \<Rightarrow> begin_play i device1 device2 vol sound a)
         | _ \<Rightarrow> a)
      else a)"
| "app_step sounds a (Cleanup_wait_over i) =
     (if i < length (calls a) then
        (case calls a ! i of
           Awaiting_cleanup device1 device2 vol sound \<Rightarrow> begin_play i device1 device2 vol sound a
         | _ \<Rightarrow> a)
      else a)"
| "app_step sounds a (Play_dual_output_settled i play_result) =
     (if i < length (calls a) then
        (case calls a ! i of
           Awaiting_play sound \<Rightarrow>
             a\<lparr>dash := play_settled sound play_result (dash a),
               calls := remove_nth i (calls a)\<rparr>
         | _ \<Rightarrow> a)
      else a)"
| "app_step sounds a StopAllAudio =
     a\<lparr>calls := calls a @ [Awaiting_stop_all],
       requests := requests a @ [Invoke ''stop_all_audio'' []]\<rparr>"
| "app_step sounds a (Stop_all_audio_settled i stop_error) =
     (if i < length (calls a) then
        (case calls a ! i of
           Awaiting_stop_all \<Rightarrow>
             a\<lparr>dash := fst (stopAllAudio stop_error (dash a)), calls := remove_nth i (calls a)\<rparr>
         | _ \<Rightarrow> a)
      else a)"
| "app_step sounds a (Emitted name p) = a\<lparr>dash := emit sounds name p (dash a)\<rparr>"
| "app_step sounds a (Timer_fired i) =
     (if i < length (timers (dash a))
      then a\<lparr>dash := run_timer (snd (timers (dash a) ! i))
                        ((dash a)\<lparr>timers := remove_nth i (timers (dash a))\<rparr>)\<rparr>
      else a)"

text \<open>The sound ids of the calls that wait for \<open>play_dual_output\<close>.\<close>

fun starting :: "suspended_call list \<Rightarrow> string list" where
  "starting [] = []"
| "starting (Awaiting_play sound # cs) = sound_id sound # starting cs"
| "starting (_ # cs) = starting cs"

text \<open>
  The invariant of interleaved execution: one map entry per sound id, and every sound
  id in the playing set has a map entry or a call that is about to make one.
\<close>

definition app_inv :: "app \<Rightarrow> bool" where
  "app_inv a =
     (distinct (map_keys (playingSoundsRef (dash a)))
      \<and> playingSoundIds (dash a)
          \<subseteq> set (map_keys (playingSoundsRef (dash a))) \<union> set (starting (calls a)))"

text \<open>Concrete inputs on which the properties below are exercised.\<close>

definition ex_sound :: Sound where
  "ex_sound = \<lparr>sound_id = ''s1'', sound_name = ''Airhorn'', file_path = ''C:/sounds/airhorn.mp3'',
     category_id = ''c1'', icon = None, sound_volume = Some 0.8, is_favorite = False,
     trim_start_ms = None, trim_end_ms = Some 1500\<rparr>"

definition ex_playing :: dashboard where
  "ex_playing = initial_dashboard\<lparr>playingSoundIds := {''s1''}, playingSoundsRef := [(''s1'', ''p1'')],
     activeWaveform := Some (waveform_for ex_sound)\<rparr>"

definition ex_other :: Sound where
  "ex_other = \<lparr>sound_id = ''s2'', sound_name = ''Drum roll'', file_path = ''C:/sounds/drum.wav'',
     category_id = ''c1'', icon = None, sound_volume = None, is_favorite = True,
     trim_start_ms = Some 200, trim_end_ms = None\<rparr>"

definition ex_overlap :: "app_event list" where
  "ex_overlap =
     [PlaySound ''dev1'' ''dev2'' ex_sound, PlaySound ''dev1'' ''dev2'' ex_other,
      Play_dual_output_settled 1 (Inr ''p2'')]"

section \<open>Settings: the global volume boost\<close>

record AppSettings =
  monitor_device_id :: "string option"
  broadcast_device_id :: "string option"
  default_volume :: real
  volume_multiplier :: real
  last_file_path :: "string option"
  minimize_to_tray :: bool
  start_minimized :: bool
  autostart_enabled :: bool

text \<open>The initial value of the component's \<open>useState<AppSettings>\<close>.\<close>

definition initial_settings :: AppSettings where
  "initial_settings =
     \<lparr>monitor_device_id = None, broadcast_device_id = None, default_volume = 0.5,
      volume_multiplier = 1.0, last_file_path = None, minimize_to_tray = False,
      start_minimized = False, autostart_enabled = False\<rparr>"

text \<open>A key of \<open>AppSettings\<close> together with a value of the key's type.\<close>

datatype setting =
    Monitor_device_id "string option"
  | Broadcast_device_id "string option"
  | Default_volume real
  | Volume_multiplier real
  | Last_file_path "string option"
  | Minimize_to_tray bool
  | Start_minimized bool
  | Autostart_enabled bool

fun updateSetting :: "setting \<Rightarrow> AppSettings \<Rightarrow> AppSettings" where
  "updateSetting (Monitor_device_id v) prev = prev\<lparr>monitor_device_id := v\<rparr>"
| "updateSetting (Broadcast_device_id v) prev = prev\<lparr>broadcast_device_id := v\<rparr>"
| "updateSetting (Default_volume v) prev = prev\<lparr>default_volume := v\<rparr>"
| "updateSetting (Volume_multiplier v) prev = prev\<lparr>volume_multiplier := v\<rparr>"
| "updateSetting (Last_file_path v) prev = prev\<lparr>last_file_path := v\<rparr>"
| "updateSetting (Minimize_to_tray v) prev = prev\<lparr>minimize_to_tray := v\<rparr>"
| "updateSetting (Start_minimized v) prev = prev\<lparr>start_minimized := v\<rparr>"
| "updateSetting (Autostart_enabled v) prev = prev\<lparr>autostart_enabled := v\<rparr>"

text \<open>
  The value an \<open><input type="range">\<close> with the given \<open>min\<close>, \<open>max\<close> and \<open>step\<close>
  reports when the user asks for position \<open>v\<close>: the browser clamps the value to the
  range and rounds it to the nearest step counted from \<open>min\<close> that is still in the
  range (a tie goes up).
\<close>

definition range_input_value :: "real \<Rightarrow> real \<Rightarrow> real \<Rightarrow> real \<Rightarrow> real" where
  "range_input_value mn mx stp v =
     (let c = max mn (min mx v);
          r = mn + of_int (round ((c - mn) / stp)) * stp
      in if r > mx then r - stp else r)"

text \<open>The \<open>onChange\<close> handler of the "Global Volume Boost" checkbox.\<close>

definition boost_toggle :: "bool \<Rightarrow> AppSettings \<Rightarrow> AppSettings" where
  "boost_toggle checked prev = updateSetting (Volume_multiplier (if checked then 2.0 else 1.0)) prev"

text \<open>
  The \<open>onChange\<close> handler of the boost slider, a range input with \<open>min="1.1"\<close>,
  \<open>max="3.0"\<close> and \<open>step="0.1"\<close>.
\<close>

definition boost_slider :: "real \<Rightarrow> AppSettings \<Rightarrow> AppSettings" where
  "boost_slider v prev = updateSetting (Volume_multiplier (range_input_value 1.1 3.0 0.1 v)) prev"

text \<open>
  What the user can do with the two boost controls.  The slider is rendered only while
  \<open>volume_multiplier > 1.0\<close>.
\<close>

datatype boost_event = Toggle bool | Slide real

fun boost_step :: "AppSettings \<Rightarrow> boost_event \<Rightarrow> AppSettings" where
  "boost_step s (Toggle checked) = boost_toggle checked s"
| "boost_step s (Slide v) = (if volume_multiplier s > 1.0 then boost_slider v s else s)"

section \<open>Gain calculator\<close>

text \<open>
  Modelled from the spec: \<open>compute_gain\<close> of the Rust audio core (the volume curve of
  \<open>audio/playback.rs\<close>), which is not among the sources.  The slider goes through a
  fourth-power curve scaled by the safety attenuation 0.2; the loudness gain is
  \<open>10^((target - v)/20)\<close> clamped to \<open>[0.1, 4.0]\<close> when normalization is enabled and a
  loudness value is present, and 1.0 otherwise; the product with the global multiplier
  and the per-sound volume is clamped to the clipping-safe ceiling, whose value the
  spec leaves open.
\<close>

definition slider_curve :: "real \<Rightarrow> real" where
  "slider_curve slider = 0.2 * slider ^ 4"

definition loudness_gain :: "bool \<Rightarrow> real option \<Rightarrow> real \<Rightarrow> real" where
  "loudness_gain normalization_enabled loudness target_loudness =
     (case loudness of
        Some v \<Rightarrow>
          if normalization_enabled
          then max 0.1 (min 4.0 (10 powr ((target_loudness - v) / 20)))
          else 1.0
      | None \<Rightarrow> 1.0)"

definition compute_gain ::
  "real \<Rightarrow> real \<Rightarrow> real \<Rightarrow> real \<Rightarrow> real option \<Rightarrow> bool \<Rightarrow> real \<Rightarrow> real" where
  "compute_gain gain_ceiling slider per_sound_volume global_multiplier loudness normalization_enabled
       target_loudness =
     min gain_ceiling
       (slider_curve slider * global_multiplier
          * loudness_gain normalization_enabled loudness target_loudness * per_sound_volume)"

section \<open>Waveform queue\<close>

record WaveformData =
  peaks :: "real list"
  duration_ms :: real

text \<open>
  A queued request.  \<open>promise\<close> stands for the \<open>resolve\<close>/\<open>reject\<close> pair of the promise
  that \<open>add\<close> returned for the request: \<open>add\<close> creates a new promise on every call.
\<close>

record QueueItem =
  filePath' :: string
  numPeaks :: real
  promise :: nat

text \<open>A call of \<open>item.resolve(data)\<close> or of \<open>item.reject(error)\<close>.\<close>

datatype settlement = Resolve WaveformData | Reject string

text \<open>Where an activation of the async method \<open>process\<close> is suspended.\<close>

datatype suspended = Awaiting_invoke QueueItem | Awaiting_delay

text \<open>
  The two fields of \<open>WaveformQueue\<close>, the suspended activations of \<open>process\<close>, and a
  record of what has happened: the requests added, the backend calls issued and the
  promises settled, each in order.
\<close>

record waveform_queue =
  queue :: "QueueItem list"
  isProcessing :: bool
  activations :: "suspended list"
  promises :: nat
  added :: "QueueItem list"
  invoked :: "command list"
  settled :: "(nat \<times> settlement) list"

definition initial_queue :: waveform_queue where
  "initial_queue =
     \<lparr>queue = [], isProcessing = False, activations = [], promises = 0, added = [],
      invoked = [], settled = []\<rparr>"

definition get_waveform_call :: "QueueItem \<Rightarrow> command" where
  "get_waveform_call item =
     Invoke ''get_waveform'' [(''filePath'', JStr (filePath' item)), (''numPeaks'', JNum (numPeaks item))]"

text \<open>
  The \<open>while\<close> loop of \<open>process\<close>, from its test to the next \<open>await\<close> or to the end of
  the method.  An entered iteration shifts the first item and calls the backend, which
  suspends the activation.
\<close>

definition process_loop :: "waveform_queue \<Rightarrow> waveform_queue" where
  "process_loop q =
     (case queue q of
        [] \<Rightarrow> q\<lparr>isProcessing := False\<rparr>
      | item # rest \<Rightarrow>
          q\<lparr>queue := rest, invoked := invoked q @ [get_waveform_call item],
            activations := activations q @ [Awaiting_invoke item]\<rparr>)"

definition process :: "waveform_queue \<Rightarrow> waveform_queue" where
  "process q =
     (if isProcessing q \<or> queue q = [] then q
      else process_loop (q\<lparr>isProcessing := True\<rparr>))"

definition add :: "string \<Rightarrow> real \<Rightarrow> waveform_queue \<Rightarrow> waveform_queue" where
  "add fp np q =
     (let item = \<lparr>filePath' = fp, numPeaks = np, promise = promises q\<rparr>
      in process (q\<lparr>queue := queue q @ [item], promises := Suc (promises q),
                     added := added q @ [item]\<rparr>))"

text \<open>
  The backend answers the call that activation \<open>i\<close> awaits: \<open>Inr data\<close> resolves the
  call, \<open>Inl error\<close> rejects it.  The activation settles the item's promise and either
  waits for the 20 ms delay or goes back to the loop test.
\<close>

definition invoke_returns :: "nat \<Rightarrow> string + WaveformData \<Rightarrow> waveform_queue \<Rightarrow> waveform_queue" where
  "invoke_returns i result q =
     (if i < length (activations q) then
        (case activations q ! i of
           Awaiting_invoke item \<Rightarrow>
             (let q1 = q\<lparr>activations := remove_nth i (activations q),
                          settled := settled q @
                            [(promise item,
                              case result of Inr data \<Rightarrow> Resolve data | Inl error \<Rightarrow> Reject error)]\<rparr>
              in if queue q1 \<noteq> [] then q1\<lparr>activations := activations q1 @ [Awaiting_delay]\<rparr>
                 else process_loop q1)
         | Awaiting_delay \<Rightarrow> q)
      else q)"

text \<open>The delay that activation \<open>i\<close> awaits is over.\<close>

definition delay_elapsed :: "nat \<Rightarrow> waveform_queue \<Rightarrow> waveform_queue" where
  "delay_elapsed i q =
     (if i < length (activations q) then
        (case activations q ! i of
           Awaiting_delay \<Rightarrow> process_loop (q\<lparr>activations := remove_nth i (activations q)\<rparr>)
         | Awaiting_invoke item \<Rightarrow> q)
      else q)"

text \<open>
  What can happen to the queue: a caller adds a request, the backend answers an awaited
  call, a delay runs out.  An event for an activation that does not await it does not
  occur and is skipped.
\<close>

datatype queue_event =
    Add string real
  | Invoke_returns nat "string + WaveformData"
  | Delay_elapsed nat

fun queue_step :: "waveform_queue \<Rightarrow> queue_event \<Rightarrow> waveform_queue" where
  "queue_step q (Add fp np) = add fp np q"
| "queue_step q (Invoke_returns i result) = invoke_returns i result q"
| "queue_step q (Delay_elapsed i) = delay_elapsed i q"

text \<open>The items whose backend call is outstanding.\<close>

fun outstanding_of :: "suspended list \<Rightarrow> QueueItem list" where
  "outstanding_of [] = []"
| "outstanding_of (Awaiting_invoke item # as) = item # outstanding_of as"
| "outstanding_of (Awaiting_delay # as) = outstanding_of as"

definition outstanding :: "waveform_queue \<Rightarrow> QueueItem list" where
  "outstanding q = outstanding_of (activations q)"

definition settlement_of :: "string + WaveformData \<Rightarrow> settlement" where
  "settlement_of result = (case result of Inr data \<Rightarrow> Resolve data | Inl error \<Rightarrow> Reject error)"

text \<open>
  The backend answers every call (\<open>backend item\<close> is its answer to the call for
  \<open>item\<close>) and every delay runs out, for at most \<open>n\<close> such events.
\<close>

fun drain :: "nat \<Rightarrow> (QueueItem \<Rightarrow> string + WaveformData) \<Rightarrow> waveform_queue \<Rightarrow> waveform_queue" where
  "drain 0 backend q = q"
| "drain (Suc n) backend q =
     (case activations q of
        [] \<Rightarrow> q
      | Awaiting_invoke item # _ \<Rightarrow> drain n backend (invoke_returns 0 (backend item) q)
      | Awaiting_delay # _ \<Rightarrow> drain n backend (delay_elapsed 0 q))"

definition queue_inv :: "waveform_queue \<Rightarrow> bool" where
  "queue_inv q =
     (length (activations q) \<le> 1
      \<and> isProcessing q = (activations q \<noteq> [])
      \<and> (activations q = [] \<longrightarrow> queue q = [])
      \<and> (activations q = [Awaiting_delay] \<longrightarrow> queue q \<noteq> [])
      \<and> map get_waveform_call (added q) = invoked q @ map get_waveform_call (queue q)
      \<and> map promise (added q) = [0..<promises q]
      \<and> [0..<promises q] =
           map fst (settled q) @ map promise (outstanding q) @ map promise (queue q))"

text \<open>The number of events after which nothing is outstanding or queued any more.\<close>

definition events_left :: "waveform_queue \<Rightarrow> nat" where
  "events_left q =
     (case activations q of
        [] \<Rightarrow> 0
      | Awaiting_invoke item # _ \<Rightarrow> 2 * length (queue q) + 1
      | Awaiting_delay # _ \<Rightarrow> 2 * length (queue q))"

definition ex_events :: "queue_event list" where
  "ex_events = [Add ''a.mp3'' 100, Add ''b.mp3'' 50]"

definition ex_backend :: "QueueItem \<Rightarrow> string + WaveformData" where
  "ex_backend item =
     (if filePath' item = ''a.mp3'' then Inr \<lparr>peaks = [0.5, 1], duration_ms = 1200\<rparr>
      else Inl ''decode failed'')"

section \<open>Hotkey display\<close>

text \<open>
  A JavaScript string is a sequence of UTF-16 code units; \<open>length\<close>, \<open>trim\<close>, \<open>split\<close>
  and the regular expressions of this module work on code units.  \<open>js\<close> embeds an
  ASCII literal.
\<close>

type_synonym jsstring = "nat list"

definition js :: "string \<Rightarrow> jsstring" where
  "js s = map of_char s"

text \<open>White space and line terminators, the code units \<open>String.prototype.trim\<close> removes.\<close>

definition is_whitespace :: "nat \<Rightarrow> bool" where
  "is_whitespace c =
     (c \<in> {9, 10, 11, 12, 13, 32, 160, 5760, 8232, 8233, 8239, 8287, 12288, 65279}
      \<or> (8192 \<le> c \<and> c \<le> 8202))"

definition trim :: "jsstring \<Rightarrow> jsstring" where
  "trim s = rev (dropWhile is_whitespace (rev (dropWhile is_whitespace s)))"

text \<open>\<open>parts.join(sep)\<close>.\<close>

fun join :: "jsstring \<Rightarrow> jsstring list \<Rightarrow> jsstring" where
  "join sep [] = []"
| "join sep [p] = p"
| "join sep (p # ps) = p @ sep @ join sep ps"

text \<open>
  \<open>s.split(sep)\<close> for a string separator: the pieces between the occurrences of
  \<open>sep\<close>, found from left to right without overlap.  \<open>acc\<close> is the piece read so far.
  An empty separator splits the string into its code units.
\<close>

function split_from :: "jsstring \<Rightarrow> jsstring \<Rightarrow> jsstring \<Rightarrow> jsstring list" where
  "split_from sep acc [] = [acc]"
| "split_from sep acc (c # cs) =
     (if sep \<noteq> [] \<and> prefix sep (c # cs)
      then acc # split_from sep [] (drop (length sep) (c # cs))
      else split_from sep (acc @ [c]) cs)"
  by pat_completeness auto
termination
  by (relation "measure (\<lambda>(sep, acc, s). length s)") auto

definition split :: "jsstring \<Rightarrow> jsstring \<Rightarrow> jsstring list" where
  "split s sep = (if sep = [] then map (\<lambda>c. [c]) s else split_from sep [] s)"

text \<open>\<open>s.startsWith(pat)\<close>.\<close>

definition startsWith :: "jsstring \<Rightarrow> jsstring \<Rightarrow> bool" where
  "startsWith s pat = prefix pat s"

text \<open>
  \<open>s.replace(pat, rep)\<close> for a string pattern: the first occurrence is replaced.  (The
  replacement here is always the empty string, so its \<open>$\<close> patterns play no part.)
\<close>

fun replace :: "jsstring \<Rightarrow> jsstring \<Rightarrow> jsstring \<Rightarrow> jsstring" where
  "replace [] pat rep = (if pat = [] then rep else [])"
| "replace (c # cs) pat rep =
     (if prefix pat (c # cs) then rep @ drop (length pat) (c # cs)
      else c # replace cs pat rep)"

definition is_digit :: "nat \<Rightarrow> bool" where
  "is_digit c = (48 \<le> c \<and> c \<le> 57)"

text \<open>The test \<open>/^F\d+$/\<close>.\<close>

definition is_function_key :: "jsstring \<Rightarrow> bool" where
  "is_function_key s =
     (case s of [] \<Rightarrow> False | c # ds \<Rightarrow> c = 70 \<and> ds \<noteq> [] \<and> list_all is_digit ds)"

text \<open>The test \<open>/[a-z]/i\<close> on one code unit: an ASCII letter of either case.\<close>

definition is_letter :: "nat \<Rightarrow> bool" where
  "is_letter c = ((65 \<le> c \<and> c \<le> 90) \<or> (97 \<le> c \<and> c \<le> 122))"

text \<open>\<open>toUpperCase\<close>, which the module applies to single ASCII letters only.\<close>

definition toUpperCase :: "jsstring \<Rightarrow> jsstring" where
  "toUpperCase s = map (\<lambda>c. if 97 \<le> c \<and> c \<le> 122 then c - 32 else c) s"

text \<open>The callback of \<open>map\<close> in \<open>formatHotkeyForDisplay\<close>, after \<open>part.trim()\<close>.\<close>

definition format_part :: "jsstring \<Rightarrow> jsstring" where
  "format_part trimmed =
     (if trimmed = js ''Ctrl'' then js ''Ctrl''
      else if trimmed = js ''Alt'' then js ''Alt''
      else if trimmed = js ''Shift'' then js ''Shift''
      else if trimmed = js ''Super'' then js ''Win''
      else if trimmed = js ''Meta'' then js ''Cmd''
      else if startsWith trimmed (js ''NumPad'') then
        (let number = replace trimmed (js ''NumPad'') []
         in if number = js ''0'' then js ''Numpad 0''
            else if number = js ''1'' then js ''Numpad 1''
            else if number = js ''2'' then js ''Numpad 2''
            else if number = js ''3'' then js ''Numpad 3''
            else if number = js ''4'' then js ''Numpad 4''
            else if number = js ''5'' then js ''Numpad 5''
            else if number = js ''6'' then js ''Numpad 6''
            else if number = js ''7'' then js ''Numpad 7''
            else if number = js ''8'' then js ''Numpad 8''
            else if number = js ''9'' then js ''Numpad 9''
            else if number = js ''Decimal'' then js ''Numpad ,''
            else if number = js ''Enter'' then js ''Numpad Enter''
            else if number = js ''Add'' then js ''Numpad +''
            else if number = js ''Subtract'' then js ''Numpad -''
            else if number = js ''Multiply'' then js ''Numpad *''
            else if number = js ''Divide'' then js ''Numpad /''
            else js ''Numpad '' @ number)
      else if is_function_key trimmed then trimmed
      else if trimmed = js ''ArrowUp'' then [0x2191]
      else if trimmed = js ''ArrowDown'' then [0x2193]
      else if trimmed = js ''ArrowLeft'' then [0x2190]
      else if trimmed = js ''ArrowRight'' then [0x2192]
      else if trimmed = js ''Space'' then js ''Space''
      else if trimmed = js ''Enter'' then js ''Enter''
      else if trimmed = js ''Tab'' then js ''Tab''
      else if trimmed = js ''Escape'' then js ''Esc''
      else if trimmed = js ''Backspace'' then js ''Backspace''
      else if trimmed = js ''Delete'' then js ''Delete''
      else if trimmed = js ''Home'' then js ''Home''
      else if trimmed = js ''End'' then js ''End''
      else if trimmed = js ''PageUp'' then js ''Page Up''
      else if trimmed = js ''PageDown'' then js ''Page Down''
      else if trimmed = js ''Insert'' then js ''Insert''
      else if length trimmed = 1 \<and> list_ex is_letter trimmed then toUpperCase trimmed
      else trimmed)"

definition formatHotkeyForDisplay :: "jsstring \<Rightarrow> jsstring" where
  "formatHotkeyForDisplay hotkey =
     join (js '' + '') (map (\<lambda>part. format_part (trim part)) (split hotkey (js ''+'')))"

text \<open>The callback of \<open>map\<close> in \<open>parseDisplayHotkey\<close>, after \<open>part.trim()\<close>.\<close>

definition parse_part :: "jsstring \<Rightarrow> jsstring" where
  "parse_part trimmed =
     (if trimmed = js ''Win'' then js ''Super''
      else if trimmed = js ''Cmd'' then js ''Meta''
      else if startsWith trimmed (js ''Numpad '') then
        (let suffix = replace trimmed (js ''Numpad '') []
         in if suffix = js ''0'' then js ''NumPad0''
            else if suffix = js ''1'' then js ''NumPad1''
            else if suffix = js ''2'' then js ''NumPad2''
            else if suffix = js ''3'' then js ''NumPad3''
            else if suffix = js ''4'' then js ''NumPad4''
            else if suffix = js ''5'' then js ''NumPad5''
            else if suffix = js ''6'' then js ''NumPad6''
            else if suffix = js ''7'' then js ''NumPad7''
            else if suffix = js ''8'' then js ''NumPad8''
            else if suffix = js ''9'' then js ''NumPad9''
            else if suffix = js '','' then js ''NumPadDecimal''
            else if suffix = js ''Enter'' then js ''NumPadEnter''
            else if suffix = js ''+'' then js ''NumPadAdd''
            else if suffix = js ''-'' then js ''NumPadSubtract''
            else if suffix = js ''*'' then js ''NumPadMultiply''
            else if suffix = js ''/'' then js ''NumPadDivide''
            else js ''NumPad'' @ suffix)
      else if trimmed = [0x2191] then js ''ArrowUp''
      else if trimmed = [0x2193] then js ''ArrowDown''
      else if trimmed = [0x2190] then js ''ArrowLeft''
      else if trimmed = [0x2192] then js ''ArrowRight''
      else if trimmed = js ''Space'' then js ''Space''
      else if trimmed = js ''Esc'' then js ''Escape''
      else if trimmed = js ''Backspace'' then js ''Backspace''
      else if trimmed = js ''Delete'' then js ''Delete''
      else if trimmed = js ''Home'' then js ''Home''
      else if trimmed = js ''End'' then js ''End''
      else if trimmed = js ''Page Up'' then js ''PageUp''
      else if trimmed = js ''Page Down'' then js ''PageDown''
      else if trimmed = js ''Insert'' then js ''Insert''
      else trimmed)"

definition parseDisplayHotkey :: "jsstring \<Rightarrow> jsstring" where
  "parseDisplayHotkey displayHotkey =
     join (js ''+'') (map (\<lambda>part. parse_part (trim part)) (split displayHotkey (js '' + '')))"

text \<open>
  The canonical technical key names: the modifiers, the NumPad keys, the arrow keys and
  the special keys the module lists, the function keys, the digits and the upper-case
  letters.
\<close>

definition canonical_names :: "jsstring list" where
  "canonical_names = map js
     [''Ctrl'', ''Alt'', ''Shift'', ''Super'', ''Meta'',
      ''NumPad0'', ''NumPad1'', ''NumPad2'', ''NumPad3'', ''NumPad4'', ''NumPad5'',
      ''NumPad6'', ''NumPad7'', ''NumPad8'', ''NumPad9'', ''NumPadDecimal'', ''NumPadEnter'',
      ''NumPadAdd'', ''NumPadSubtract'', ''NumPadMultiply'', ''NumPadDivide'',
      ''ArrowUp'', ''ArrowDown'', ''ArrowLeft'', ''ArrowRight'',
      ''Space'', ''Enter'', ''Tab'', ''Escape'', ''Backspace'', ''Delete'', ''Home'', ''End'',
      ''PageUp'', ''PageDown'', ''Insert'']"

definition canonical_key :: "jsstring \<Rightarrow> bool" where
  "canonical_key p =
     (p \<in> set canonical_names \<or> is_function_key p
      \<or> (case p of [c] \<Rightarrow> is_digit c \<or> (65 \<le> c \<and> c \<le> 90) | _ \<Rightarrow> False))"

section \<open>Properties of the playback tracking\<close>

lemma map_keys_delete: "map_keys (map_delete m k) = filter (\<lambda>x. x \<noteq> k) (map_keys m)"
  by (induction m) (auto simp: map_keys_def map_delete_def)

lemma map_get_delete_same: "map_get (map_delete m k) k = None"
  by (induction m) (auto simp: map_delete_def)

lemma map_get_None_iff: "map_get m k = None \<longleftrightarrow> k \<notin> set (map_keys m)"
proof (induction m)
  case Nil
  show ?case by (simp add: map_keys_def)
next
  case (Cons e m)
  then show ?case by (cases e) (simp add: map_keys_def)
qed

lemma map_delete_absent: "k \<notin> set (map_keys m) \<Longrightarrow> map_delete m k = m"
  by (induction m) (auto simp: map_keys_def map_delete_def)

lemma set_keys_map_set: "set (map_keys (map_set m k v)) = insert k (set (map_keys m))"
proof (induction m)
  case Nil
  show ?case by (simp add: map_keys_def)
next
  case (Cons e m)
  then show ?case by (cases e) (auto simp: map_keys_def)
qed

lemma distinct_keys_map_set: "distinct (map_keys m) \<Longrightarrow> distinct (map_keys (map_set m k v))"
proof (induction m)
  case Nil
  then show ?case by (simp add: map_keys_def)
next
  case (Cons e m)
  obtain k' v' where e: "e = (k', v')" by (cases e)
  have "set (map fst (map_set m k v)) = insert k (set (map fst m))"
    using set_keys_map_set [of m k v] by (simp add: map_keys_def)
  with Cons e show ?case by (auto simp: map_keys_def)
qed

lemma map_get_map_set_same: "map_get (map_set m k v) k = Some v"
  by (induction m) auto

lemma tracking_inv_untrack: "tracking_inv st \<Longrightarrow> tracking_inv (untrack sid st)"
  by (auto simp: tracking_inv_def untrack_def map_keys_delete)

lemma tracking_inv_showToast [simp]: "tracking_inv (showToast msg st) = tracking_inv st"
  by (simp add: tracking_inv_def showToast_def)

lemma tracking_inv_restart:
  "tracking_inv st \<Longrightarrow> tracking_inv (fst (playSound_restart sound stop_error st))"
  by (auto simp: playSound_restart_def Let_def tracking_inv_untrack split: option.splits)

lemma tracking_inv_start:
  assumes "distinct (map_keys (playingSoundsRef st))"
    and "playingSoundIds st - {sound_id sound} \<subseteq> set (map_keys (playingSoundsRef st))"
  shows "tracking_inv (fst (playSound_start device1 device2 sound play_result st))"
proof (cases play_result)
  case (Inl error)
  with assms show ?thesis
    by (auto simp: playSound_start_def mark_playing_def play_settled_def Let_def tracking_inv_def untrack_def showToast_def map_keys_delete)
next
  case (Inr playbackId)
  with assms show ?thesis
    by (auto simp: playSound_start_def mark_playing_def play_settled_def Let_def tracking_inv_def set_keys_map_set distinct_keys_map_set)
qed

lemma tracking_inv_playSound:
  "tracking_inv st \<Longrightarrow> tracking_inv (fst (playSound device1 device2 sound stop_error play_result st))"
proof -
  assume inv: "tracking_inv st"
  let ?st1 = "fst (playSound_restart sound stop_error st)"
  have "tracking_inv ?st1" using inv by (rule tracking_inv_restart)
  then have "tracking_inv (fst (playSound_start device1 device2 sound play_result ?st1))"
    by (intro tracking_inv_start) (auto simp: tracking_inv_def)
  with inv show ?thesis
    by (simp add: playSound_def split_beta Let_def)
qed

lemma tracking_inv_complete:
  "tracking_inv st \<Longrightarrow> tracking_inv (playback_complete sounds p st)"
proof -
  assume inv: "tracking_inv st"
  have key: "\<And>sid f. tracking_inv (untrack sid st)" using inv by (rule tracking_inv_untrack)
  show ?thesis
    using inv key
    by (auto simp: playback_complete_def Let_def tracking_inv_def split: option.splits)
qed

lemma tracking_inv_stopAll:
  "tracking_inv st \<Longrightarrow> tracking_inv (fst (stopAllAudio stop_error st))"
  by (auto simp: stopAllAudio_def tracking_inv_def showToast_def map_keys_def split: option.splits)

lemma find_sound_id_None_iff: "find_sound_id m p = None \<longleftrightarrow> p \<notin> snd ` set m"
proof (induction m)
  case Nil
  show ?case by simp
next
  case (Cons e m)
  then show ?case by (cases e) auto
qed

lemma find_sound_id_Some: "find_sound_id m p = Some sid \<Longrightarrow> (sid, p) \<in> set m"
proof (induction m)
  case Nil
  then show ?case by simp
next
  case (Cons e m)
  then show ?case by (cases e) (auto split: if_splits)
qed

lemma playingSoundsRef_complete:
  "playingSoundsRef (playback_complete sounds p st) =
     (case find_sound_id (playingSoundsRef st) p of
        None \<Rightarrow> playingSoundsRef st
      | Some sid \<Rightarrow> if truthy sid then map_delete (playingSoundsRef st) sid else playingSoundsRef st)"
  by (simp add: playback_complete_def Let_def untrack_def split: option.splits)

lemma complete_removes:
  assumes "distinct (map snd (playingSoundsRef st))" and "[] \<notin> set (map_keys (playingSoundsRef st))"
  shows "p \<notin> snd ` set (playingSoundsRef (playback_complete sounds p st))"
proof (cases "find_sound_id (playingSoundsRef st) p")
  case None
  then have "p \<notin> snd ` set (playingSoundsRef st)"
    by (simp add: find_sound_id_None_iff)
  with None show ?thesis
    by (simp add: playingSoundsRef_complete)
next
  case (Some sid)
  then have mem: "(sid, p) \<in> set (playingSoundsRef st)" by (rule find_sound_id_Some)
  with assms(2) have "truthy sid" by (force simp: truthy_def map_keys_def)
  moreover have "p \<notin> snd ` set (map_delete (playingSoundsRef st) sid)"
  proof
    assume "p \<in> snd ` set (map_delete (playingSoundsRef st) sid)"
    then obtain k where k: "(k, p) \<in> set (playingSoundsRef st)" "k \<noteq> sid"
      by (auto simp: map_delete_def)
    from assms(1) have "inj_on snd (set (playingSoundsRef st))"
      by (simp add: distinct_map)
    from inj_onD [OF this _ k(1) mem] have "(k, p) = (sid, p)" by simp
    with k(2) show False by simp
  qed
  ultimately show ?thesis using Some by (simp add: playingSoundsRef_complete)
qed

lemma progress_noop: "playback_id ev \<notin> snd ` set (playingSoundsRef st) \<Longrightarrow> playback_progress ev st = st"
  by (simp add: playback_progress_def find_sound_id_None_iff [symmetric])

lemma complete_noop: "p \<notin> snd ` set (playingSoundsRef st) \<Longrightarrow> playback_complete sounds p st = st"
  by (simp add: playback_complete_def find_sound_id_None_iff [symmetric])

lemma starting_append [simp]: "starting (cs @ ds) = starting cs @ starting ds"
  by (induction cs rule: starting.induct) simp_all

lemma starting_split:
  assumes "i < length cs"
  shows "set (starting cs) = set (starting (remove_nth i cs)) \<union> set (starting [cs ! i])"
    and "set (starting (cs[i := c])) = set (starting (remove_nth i cs)) \<union> set (starting [c])"
proof -
  from assms have "cs = take i cs @ [cs ! i] @ drop (Suc i) cs"
    by (simp add: id_take_nth_drop)
  then have "starting cs = starting (take i cs) @ starting [cs ! i] @ starting (drop (Suc i) cs)"
    by (metis starting_append)
  then show "set (starting cs) = set (starting (remove_nth i cs)) \<union> set (starting [cs ! i])"
    by (auto simp: remove_nth_def)
  from assms have "cs[i := c] = take i cs @ [c] @ drop (Suc i) cs"
    by (simp add: upd_conv_take_nth_drop)
  then have "starting (cs[i := c]) = starting (take i cs) @ starting [c] @ starting (drop (Suc i) cs)"
    by (metis starting_append)
  then show "set (starting (cs[i := c])) = set (starting (remove_nth i cs)) \<union> set (starting [c])"
    by (auto simp: remove_nth_def)
qed

lemma app_inv_begin_play:
  assumes "app_inv a" and "i < length (calls a)"
    and "set (starting [calls a ! i]) \<subseteq> {sound_id sound}"
  shows "app_inv (begin_play i device1 device2 vol sound a)"
proof -
  let ?R = "set (starting (remove_nth i (calls a)))"
  have old: "set (starting (calls a)) = ?R \<union> set (starting [calls a ! i])"
    using assms(2) by (rule starting_split(1))
  have new: "set (starting ((calls a)[i := Awaiting_play sound])) = ?R \<union> {sound_id sound}"
    using starting_split(2) [OF assms(2), of "Awaiting_play sound"] by simp
  from old assms(3) have "set (starting (calls a)) \<subseteq> ?R \<union> {sound_id sound}" by blast
  with new have sub: "set (starting (calls a)) \<subseteq> set (starting ((calls a)[i := Awaiting_play sound]))"
    and mem: "sound_id sound \<in> set (starting ((calls a)[i := Awaiting_play sound]))"
    by simp_all
  from assms(1) have d: "distinct (map_keys (playingSoundsRef (dash a)))"
    and ids: "playingSoundIds (dash a)
          \<subseteq> set (map_keys (playingSoundsRef (dash a))) \<union> set (starting (calls a))"
    by (simp_all add: app_inv_def)
  from ids sub mem have "insert (sound_id sound) (playingSoundIds (dash a))
          \<subseteq> set (map_keys (playingSoundsRef (dash a)))
              \<union> set (starting ((calls a)[i := Awaiting_play sound]))"
    by blast
  with d show ?thesis
    by (simp add: app_inv_def begin_play_def mark_playing_def)
qed

lemma app_inv_calls_irrelevant:
  assumes "app_inv a" and "set (starting cs) = set (starting (calls a))"
  shows "app_inv (a\<lparr>calls := cs, requests := rs\<rparr>)"
  using assms by (simp add: app_inv_def)

lemma app_inv_untrack:
  assumes "app_inv a"
  shows "distinct (map_keys (playingSoundsRef (untrack sid (dash a))))"
    and "playingSoundIds (untrack sid (dash a))
          \<subseteq> set (map_keys (playingSoundsRef (untrack sid (dash a)))) \<union> set (starting (calls a))"
  using assms by (auto simp: app_inv_def untrack_def map_keys_delete)

lemma app_inv_play_settled:
  assumes "app_inv a" and "i < length (calls a)" and "calls a ! i = Awaiting_play sound"
  shows "app_inv (a\<lparr>dash := play_settled sound play_result (dash a),
                     calls := remove_nth i (calls a)\<rparr>)"
proof -
  from starting_split(1) [OF assms(2)] assms(3)
  have st: "set (starting (calls a)) = insert (sound_id sound) (set (starting (remove_nth i (calls a))))"
    by simp
  show ?thesis
  proof (cases play_result)
    case (Inl error)
    with assms(1) st show ?thesis
      by (auto simp: app_inv_def play_settled_def untrack_def showToast_def map_keys_delete)
  next
    case (Inr playbackId)
    with assms(1) st show ?thesis
      by (auto simp: app_inv_def play_settled_def Let_def set_keys_map_set distinct_keys_map_set)
  qed
qed

lemma app_inv_dash:
  assumes "app_inv a"
    and "distinct (map_keys (playingSoundsRef st))"
    and "playingSoundIds st \<subseteq> playingSoundIds (dash a)"
    and "set (map_keys (playingSoundsRef (dash a))) - (set (map_keys (playingSoundsRef st)))
           \<subseteq> - playingSoundIds st"
  shows "app_inv (a\<lparr>dash := st\<rparr>)"
  using assms by (auto simp: app_inv_def)

lemma playingSoundIds_complete:
  "playingSoundIds (playback_complete sounds p st) =
     (case find_sound_id (playingSoundsRef st) p of
        None \<Rightarrow> playingSoundIds st
      | Some sid \<Rightarrow> if truthy sid then playingSoundIds st - {sid} else playingSoundIds st)"
  by (simp add: playback_complete_def Let_def untrack_def split: option.splits)

lemma complete_tracking:
  "playingSoundsRef (playback_complete sounds p st) = playingSoundsRef st
     \<and> playingSoundIds (playback_complete sounds p st) = playingSoundIds st
   \<or> (\<exists>sid. playingSoundsRef (playback_complete sounds p st) = map_delete (playingSoundsRef st) sid
         \<and> playingSoundIds (playback_complete sounds p st) = playingSoundIds st - {sid})"
proof (cases "find_sound_id (playingSoundsRef st) p")
  case None
  then show ?thesis by (simp add: playingSoundsRef_complete playingSoundIds_complete)
next
  case (Some sid)
  then show ?thesis
    by (cases "truthy sid") (auto simp: playingSoundsRef_complete playingSoundIds_complete)
qed

lemma progress_tracking:
  "playingSoundsRef (playback_progress ev st) = playingSoundsRef st
     \<and> playingSoundIds (playback_progress ev st) = playingSoundIds st"
  by (simp add: playback_progress_def split: option.splits)

lemma app_inv_emit:
  assumes "app_inv a"
  shows "app_inv (a\<lparr>dash := emit sounds name p (dash a)\<rparr>)"
proof -
  have "playingSoundsRef (emit sounds name p (dash a)) = playingSoundsRef (dash a)
          \<and> playingSoundIds (emit sounds name p (dash a)) = playingSoundIds (dash a)
        \<or> (\<exists>sid. playingSoundsRef (emit sounds name p (dash a)) = map_delete (playingSoundsRef (dash a)) sid
          \<and> playingSoundIds (emit sounds name p (dash a)) = playingSoundIds (dash a) - {sid})"
    using complete_tracking [of sounds _ "dash a"] progress_tracking [of _ "dash a"]
    by (cases p) (auto simp: emit_def Dashboard_listeners_def showToast_def)
  with assms show ?thesis
    by (auto simp: app_inv_def map_keys_delete)
qed

lemma app_inv_step: "app_inv a \<Longrightarrow> app_inv (app_step sounds a e)"
proof (cases e)
  case (PlaySound device1 device2 sound)
  assume inv: "app_inv a"
  let ?a' = "a\<lparr>calls := calls a @ [Awaiting_play sound]\<rparr>"
  have "app_inv ?a'" using inv by (auto simp: app_inv_def)
  then have fresh: "app_inv (begin_play (length (calls a)) device1 device2 (volume (dash a)) sound ?a')"
    by (rule app_inv_begin_play) simp_all
  have toast: "app_inv (a\<lparr>dash := showToast m (dash a)\<rparr>)" for m
    using inv by (simp add: app_inv_def showToast_def)
  have stop: "app_inv (a\<lparr>calls := calls a @ [Awaiting_stop device1 device2 v sound], requests := rs\<rparr>)" for v rs
    using inv by (simp add: app_inv_def)
  from fresh toast stop PlaySound show ?thesis
    by (simp add: Let_def split: option.splits)
next
  case (Stop_playback_settled i stop_error)
  assume inv: "app_inv a"
  show ?thesis
  proof (cases "i < length (calls a)")
    case False
    with inv Stop_playback_settled show ?thesis by simp
  next
    case True
    show ?thesis
    proof (cases "calls a ! i")
      case (Awaiting_stop device1 device2 vol sound)
      from starting_split [OF True] Awaiting_stop
      have "set (starting ((calls a)[i := Awaiting_cleanup device1 device2 vol sound])) = set (starting (calls a))"
        by simp
      with app_inv_untrack [OF inv, of "sound_id sound"]
      have "app_inv (a\<lparr>dash := untrack (sound_id sound) (dash a),
                    calls := (calls a)[i := Awaiting_cleanup device1 device2 vol sound],
                    requests := requests a @ [SetTimeout 100]\<rparr>)"
        by (simp add: app_inv_def)
      moreover have "app_inv (begin_play i device1 device2 vol sound a)"
        using inv True by (rule app_inv_begin_play) (simp add: Awaiting_stop)
      ultimately show ?thesis
        using Stop_playback_settled True Awaiting_stop by (simp split: option.splits)
    qed (use inv Stop_playback_settled True in simp_all)
  qed
next
  case (Cleanup_wait_over i)
  assume inv: "app_inv a"
  show ?thesis
  proof (cases "i < length (calls a)")
    case False
    with inv Cleanup_wait_over show ?thesis by simp
  next
    case True
    show ?thesis
    proof (cases "calls a ! i")
      case (Awaiting_cleanup device1 device2 vol sound)
      have "app_inv (begin_play i device1 device2 vol sound a)"
        using inv True by (rule app_inv_begin_play) (simp add: Awaiting_cleanup)
      then show ?thesis using Cleanup_wait_over True Awaiting_cleanup by simp
    qed (use inv Cleanup_wait_over True in simp_all)
  qed
next
  case (Play_dual_output_settled i play_result)
  assume inv: "app_inv a"
  show ?thesis
  proof (cases "i < length (calls a)")
    case False
    with inv Play_dual_output_settled show ?thesis by simp
  next
    case True
    show ?thesis
    proof (cases "calls a ! i")
      case (Awaiting_play sound)
      from app_inv_play_settled [OF inv True this, of play_result]
      show ?thesis using Play_dual_output_settled True Awaiting_play by simp
    qed (use inv Play_dual_output_settled True in simp_all)
  qed
next
  case StopAllAudio
  assume "app_inv a"
  with StopAllAudio show ?thesis by (simp add: app_inv_def)
next
  case (Stop_all_audio_settled i stop_error)
  assume inv: "app_inv a"
  show ?thesis
  proof (cases "i < length (calls a)")
    case False
    with inv Stop_all_audio_settled show ?thesis by simp
  next
    case True
    show ?thesis
    proof (cases "calls a ! i")
      case Awaiting_stop_all
      from starting_split(1) [OF True] Awaiting_stop_all
      have "set (starting (remove_nth i (calls a))) = set (starting (calls a))" by simp
      with inv have "app_inv (a\<lparr>dash := fst (stopAllAudio stop_error (dash a)),
                               calls := remove_nth i (calls a)\<rparr>)"
        by (auto simp: app_inv_def stopAllAudio_def showToast_def map_keys_def split: option.splits)
      then show ?thesis using Stop_all_audio_settled True Awaiting_stop_all by simp
    qed (use inv Stop_all_audio_settled True in simp_all)
  qed
next
  case (Emitted name p)
  assume "app_inv a"
  then show ?thesis using Emitted by (simp add: app_inv_emit)
next
  case (Timer_fired i)
  assume inv: "app_inv a"
  have "app_inv (a\<lparr>dash := run_timer t ((dash a)\<lparr>timers := ts\<rparr>)\<rparr>)" for t ts
    using inv by (cases t) (simp_all add: app_inv_def)
  with inv Timer_fired show ?thesis by simp
qed

lemma app_inv_run: "app_inv a \<Longrightarrow> app_inv (foldl (app_step sounds) a evs)"
  by (induction evs arbitrary: a) (simp_all add: app_inv_step)

lemma app_inv_initial: "app_inv initial_app"
  by (simp add: app_inv_def initial_app_def initial_dashboard_def map_keys_def)

lemma app_inv_quiescent:
  "app_inv a \<Longrightarrow> starting (calls a) = [] \<Longrightarrow> tracking_inv (dash a)"
  by (simp add: app_inv_def tracking_inv_def)

text \<open>
  Run without interruption, the steps of one \<open>playSound\<close> call are the function
  \<open>playSound\<close> above, and likewise for \<open>stopAllAudio\<close>.
\<close>

lemma playSound_steps:
  "foldl (app_step sounds) \<lparr>dash = st, calls = [], requests = rs\<rparr>
     [PlaySound device1 device2 sound, Stop_playback_settled 0 stop_error, Cleanup_wait_over 0,
      Play_dual_output_settled 0 play_result]
   = \<lparr>dash = fst (playSound device1 device2 sound stop_error play_result st), calls = [],
      requests = rs @ map fst (snd (playSound device1 device2 sound stop_error play_result st))\<rparr>"
proof (cases "\<not> truthy device1 \<or> \<not> truthy device2")
  case True
  then show ?thesis by (auto simp: playSound_def)
next
  case False
  note dev = this
  show ?thesis
  proof (cases "map_get (playingSoundsRef st) (sound_id sound)")
    case None
    with dev show ?thesis
      by (simp add: playSound_def playSound_restart_def playSound_start_def begin_play_def
          remove_nth_def Let_def mark_playing_def)
  next
    case (Some pid)
    show ?thesis
    proof (cases "truthy pid")
      case False
      with dev Some show ?thesis
        by (simp add: playSound_def playSound_restart_def playSound_start_def begin_play_def
            remove_nth_def Let_def mark_playing_def)
    next
      case True
      with dev Some show ?thesis
        by (cases stop_error)
          (simp_all add: playSound_def playSound_restart_def playSound_start_def begin_play_def
            remove_nth_def Let_def mark_playing_def untrack_def)
    qed
  qed
qed

lemma stopAllAudio_steps:
  "foldl (app_step sounds) \<lparr>dash = st, calls = [], requests = rs\<rparr>
     [StopAllAudio, Stop_all_audio_settled 0 stop_error]
   = \<lparr>dash = fst (stopAllAudio stop_error st), calls = [],
      requests = rs @ map fst (snd (stopAllAudio stop_error st))\<rparr>"
  by (cases stop_error) (simp_all add: stopAllAudio_def remove_nth_def)

lemma ex_playing_inv: "tracking_inv ex_playing"
  by (simp add: tracking_inv_def ex_playing_def map_keys_def initial_dashboard_def)

lemma ex_overlap_run:
  "foldl (app_step []) initial_app ex_overlap =
     \<lparr>dash = initial_dashboard
        \<lparr>playingSoundIds := {''s1'', ''s2''}, playingSoundsRef := [(''s2'', ''p2'')],
         activeWaveform := Some (waveform_for ex_other)\<rparr>,
      calls = [Awaiting_play ex_sound],
      requests =
        [Invoke ''play_dual_output'' (play_args ''dev1'' ''dev2'' ex_sound 0.5),
         Invoke ''play_dual_output'' (play_args ''dev1'' ''dev2'' ex_other 0.5)]\<rparr>"
  by (simp add: ex_overlap_def initial_app_def initial_dashboard_def ex_sound_def ex_other_def
      truthy_def begin_play_def mark_playing_def play_settled_def remove_nth_def Let_def
      insert_commute)

lemma untracked_untrack: "untracked (untrack sid st) \<subseteq> untracked st"
  by (auto simp: untracked_def untrack_def map_keys_delete)

lemma untracked_restart: "untracked (fst (playSound_restart sound stop_error st)) \<subseteq> untracked st"
  using untracked_untrack [of "sound_id sound" st]
  by (simp add: playSound_restart_def Let_def split: option.splits)

lemma untracked_start:
  "untracked (fst (playSound_start device1 device2 sound play_result st)) \<subseteq> untracked st"
proof (cases play_result)
  case (Inl error)
  then show ?thesis
    by (auto simp: playSound_start_def mark_playing_def play_settled_def untracked_def
        untrack_def showToast_def map_keys_delete)
next
  case (Inr playbackId)
  then show ?thesis
    by (auto simp: playSound_start_def mark_playing_def play_settled_def untracked_def Let_def
        set_keys_map_set)
qed

lemma untracked_playSound:
  "untracked (fst (playSound device1 device2 sound stop_error play_result st)) \<subseteq> untracked st"
proof (cases "\<not> truthy device1 \<or> \<not> truthy device2")
  case True
  then show ?thesis by (auto simp: playSound_def untracked_def showToast_def)
next
  case False
  let ?st1 = "fst (playSound_restart sound stop_error st)"
  have "untracked (fst (playSound_start device1 device2 sound play_result ?st1)) \<subseteq> untracked ?st1"
    by (rule untracked_start)
  also have "untracked ?st1 \<subseteq> untracked st" by (rule untracked_restart)
  finally show ?thesis using False by (simp add: playSound_def split_beta Let_def)
qed

lemma untracked_complete: "untracked (playback_complete sounds p st) \<subseteq> untracked st"
proof -
  from complete_tracking [of sounds p st]
  consider "playingSoundsRef (playback_complete sounds p st) = playingSoundsRef st"
      "playingSoundIds (playback_complete sounds p st) = playingSoundIds st"
    | sid where "playingSoundsRef (playback_complete sounds p st) = map_delete (playingSoundsRef st) sid"
      "playingSoundIds (playback_complete sounds p st) = playingSoundIds st - {sid}"
    by blast
  then show ?thesis
  proof cases
    case 1
    then show ?thesis by (simp add: untracked_def)
  next
    case (2 sid)
    then show ?thesis by (auto simp: untracked_def map_keys_delete)
  qed
qed

lemma untracked_stopAll: "untracked (fst (stopAllAudio stop_error st)) \<subseteq> untracked st"
  by (cases stop_error) (simp_all add: stopAllAudio_def untracked_def showToast_def)

text \<open>
  Claim C2, as amended.  In every state the component reaches, whatever the interleaving
  of its handlers and the answers of the backend, the map holds one entry per sound id,
  and every sound id in the playing set has a map entry or a \<open>playSound\<close> call for it
  that still waits for \<open>play_dual_output\<close>; when no call waits for
  \<open>play_dual_output\<close>, every playing sound id has a map entry.  Run without
  interruption from any state, \<open>playSound\<close>, the \<open>playback-complete\<close> listener and
  \<open>stopAllAudio\<close> leave no sound id in the playing set without a map entry that was
  not there without one before; from a state with the tracking invariant they lead to
  a state with the tracking invariant.
\<close>

theorem tracking_invariant_preserved:
  "app_inv (foldl (app_step sounds) initial_app evs)
   \<and> (starting (calls (foldl (app_step sounds) initial_app evs)) = []
        \<longrightarrow> tracking_inv (dash (foldl (app_step sounds) initial_app evs)))
   \<and> (tracking_inv st \<longrightarrow>
        tracking_inv (fst (playSound device1 device2 sound stop_error play_result st)) \<and>
        tracking_inv (playback_complete sounds p st) \<and>
        tracking_inv (fst (stopAllAudio stop_error' st)))
   \<and> untracked (fst (playSound device1 device2 sound stop_error play_result st)) \<subseteq> untracked st
   \<and> untracked (playback_complete sounds p st) \<subseteq> untracked st
   \<and> untracked (fst (stopAllAudio stop_error' st)) \<subseteq> untracked st"
proof -
  have "app_inv (foldl (app_step sounds) initial_app evs)"
    using app_inv_initial by (rule app_inv_run)
  then show ?thesis
    using app_inv_quiescent [of "foldl (app_step sounds) initial_app evs"]
      tracking_inv_playSound [of st device1 device2 sound stop_error play_result]
      tracking_inv_complete [of st sounds p] tracking_inv_stopAll [of st stop_error']
      untracked_playSound [of device1 device2 sound stop_error play_result st]
      untracked_complete [of sounds p st] untracked_stopAll [of stop_error' st]
    by blast
qed

text \<open>
  Witness for C2: two sounds are started one after the other and both play commands
  return; then one of them is restarted without interruption.  Started without
  interruption while \<open>s1\<close> still waits for its play command, \<open>s2\<close> gets its map entry
  and \<open>s1\<close> stays the one sound id without.
\<close>

theorem tracking_invariant_preserved_witness:
  "starting (calls (foldl (app_step []) initial_app
       (ex_overlap @ [Play_dual_output_settled 0 (Inr ''p1'')]))) = []
   \<and> tracking_inv (dash (foldl (app_step []) initial_app
       (ex_overlap @ [Play_dual_output_settled 0 (Inr ''p1'')])))
   \<and> playingSoundsRef (dash (foldl (app_step []) initial_app
       (ex_overlap @ [Play_dual_output_settled 0 (Inr ''p1'')]))) = [(''s2'', ''p2''), (''s1'', ''p1'')]
   \<and> tracking_inv ex_playing
   \<and> tracking_inv (fst (playSound ''dev1'' ''dev2'' ex_sound None (Inr ''p2'') ex_playing))
   \<and> tracking_inv (playback_complete [] ''p1'' ex_playing)
   \<and> tracking_inv (fst (stopAllAudio None ex_playing))
   \<and> untracked (fst (playSound ''dev1'' ''dev2'' ex_sound None (Inr ''p2'') ex_playing)) = {}
   \<and> untracked (mark_playing ex_sound initial_dashboard) = {''s1''}
   \<and> untracked (fst (playSound ''dev1'' ''dev2'' ex_other None (Inr ''p2'')
         (mark_playing ex_sound initial_dashboard))) = {''s1''}"
proof -
  let ?a = "foldl (app_step []) initial_app (ex_overlap @ [Play_dual_output_settled 0 (Inr ''p1'')])"
  have run: "calls ?a = []" "playingSoundsRef (dash ?a) = [(''s2'', ''p2''), (''s1'', ''p1'')]"
    by (simp_all add: ex_overlap_run play_settled_def remove_nth_def Let_def ex_sound_def
        initial_dashboard_def)
  have pending: "untracked (mark_playing ex_sound initial_dashboard) = {''s1''}"
    "untracked (fst (playSound ''dev1'' ''dev2'' ex_other None (Inr ''p2'')
         (mark_playing ex_sound initial_dashboard))) = {''s1''}"
    by (simp_all add: untracked_def mark_playing_def initial_dashboard_def ex_sound_def
        ex_other_def map_keys_def playSound_def playSound_restart_def playSound_start_def
        play_settled_def truthy_def Let_def)
  from tracking_invariant_preserved [where sounds = "[]"
      and evs = "ex_overlap @ [Play_dual_output_settled 0 (Inr ''p1'')]"
      and st = ex_playing and ?device1.0 = "''dev1''" and ?device2.0 = "''dev2''"
      and sound = ex_sound and stop_error = None and play_result = "Inr ''p2''"
      and p = "''p1''" and stop_error' = None]
    run ex_playing_inv
  have "tracking_inv (dash ?a)
      \<and> tracking_inv (fst (playSound ''dev1'' ''dev2'' ex_sound None (Inr ''p2'') ex_playing))
      \<and> tracking_inv (playback_complete [] ''p1'' ex_playing)
      \<and> tracking_inv (fst (stopAllAudio None ex_playing))
      \<and> untracked (fst (playSound ''dev1'' ''dev2'' ex_sound None (Inr ''p2'') ex_playing))
          \<subseteq> untracked ex_playing"
    by simp
  moreover have "untracked ex_playing = {}"
    by (simp add: untracked_def ex_playing_def map_keys_def)
  ultimately show ?thesis using run ex_playing_inv pending by simp
qed

text \<open>
  Counterexample to C2 as stated: \<open>playSound\<close> is called for \<open>s1\<close> and then for \<open>s2\<close>,
  and the play command for \<open>s2\<close> returns first.  The call for \<open>s2\<close> is over, and \<open>s1\<close>
  is in the playing set with no entry in the map.
\<close>

theorem tracking_invariant_counterexample:
  "calls (foldl (app_step []) initial_app ex_overlap) = [Awaiting_play ex_sound]
   \<and> playingSoundIds (dash (foldl (app_step []) initial_app ex_overlap)) = {''s1'', ''s2''}
   \<and> playingSoundsRef (dash (foldl (app_step []) initial_app ex_overlap)) = [(''s2'', ''p2'')]
   \<and> \<not> tracking_inv (dash (foldl (app_step []) initial_app ex_overlap))"
  by (simp add: ex_overlap_run tracking_inv_def map_keys_def initial_dashboard_def)

lemma values_map_set: "snd ` set (map_set m k v) \<subseteq> insert v (snd ` set m)"
proof (induction m)
  case Nil
  show ?case by simp
next
  case (Cons e m)
  then show ?case by (cases e) auto
qed

lemma absent_map_delete: "p \<notin> snd ` set m \<Longrightarrow> p \<notin> snd ` set (map_delete m k)"
  by (auto simp: map_delete_def)

lemma absent_untrack:
  "p \<notin> snd ` set (playingSoundsRef st) \<Longrightarrow> p \<notin> snd ` set (playingSoundsRef (untrack sid st))"
  by (simp add: untrack_def absent_map_delete)

lemma absent_play_settled:
  assumes "p \<notin> snd ` set (playingSoundsRef st)" and "play_result \<noteq> Inr p"
  shows "p \<notin> snd ` set (playingSoundsRef (play_settled sound play_result st))"
proof (cases play_result)
  case (Inl error)
  have "p \<notin> snd ` set (playingSoundsRef (showToast (''Error: '' @ error) st))"
    using assms(1) by (simp add: showToast_def)
  then have "p \<notin> snd ` set (playingSoundsRef (untrack (sound_id sound) (showToast (''Error: '' @ error) st)))"
    by (rule absent_untrack)
  with Inl show ?thesis by (simp add: play_settled_def)
next
  case (Inr playbackId)
  with assms(2) have "playbackId \<noteq> p" by simp
  with assms(1) values_map_set [of "playingSoundsRef st" "sound_id sound" playbackId]
  have "p \<notin> snd ` set (map_set (playingSoundsRef st) (sound_id sound) playbackId)" by auto
  with Inr show ?thesis by (simp add: play_settled_def Let_def)
qed

lemma emit_cases:
  "emit sounds name pl st = st
   \<or> (\<exists>e. emit sounds name pl st = showToast (''Decode Error: '' @ e) st)
   \<or> (\<exists>p. emit sounds name pl st = playback_complete sounds p st)
   \<or> (\<exists>ev. emit sounds name pl st = playback_progress ev st)"
  by (cases pl) (auto simp: emit_def Dashboard_listeners_def)

lemma absent_emit:
  assumes "p \<notin> snd ` set (playingSoundsRef st)"
  shows "p \<notin> snd ` set (playingSoundsRef (emit sounds name pl st))"
proof -
  have c: "p \<notin> snd ` set (playingSoundsRef (playback_complete sounds q st))" for q
  proof -
    from complete_tracking [of sounds q st]
    consider "playingSoundsRef (playback_complete sounds q st) = playingSoundsRef st"
      | sid where "playingSoundsRef (playback_complete sounds q st) = map_delete (playingSoundsRef st) sid"
      by blast
    then show ?thesis using assms by cases (simp_all add: absent_map_delete)
  qed
  have g: "p \<notin> snd ` set (playingSoundsRef (playback_progress ev st))" for ev
    using progress_tracking [of ev st] assms by simp
  have t: "p \<notin> snd ` set (playingSoundsRef (showToast m st))" for m
    using assms by (simp add: showToast_def)
  from emit_cases [of sounds name pl st]
  consider "emit sounds name pl st = st"
    | e where "emit sounds name pl st = showToast (''Decode Error: '' @ e) st"
    | q where "emit sounds name pl st = playback_complete sounds q st"
    | ev where "emit sounds name pl st = playback_progress ev st"
    by blast
  then show ?thesis
  proof cases
    case 1
    with assms show ?thesis by simp
  next
    case 2
    with t show ?thesis by simp
  next
    case 3
    with c show ?thesis by simp
  next
    case 4
    with g show ?thesis by simp
  qed
qed

lemma absent_step:
  assumes "p \<notin> snd ` set (playingSoundsRef (dash a))"
    and "\<forall>i. e \<noteq> Play_dual_output_settled i (Inr p)"
  shows "p \<notin> snd ` set (playingSoundsRef (dash (app_step sounds a e)))"
proof (cases e)
  case (PlaySound device1 device2 sound)
  with assms(1) show ?thesis
    by (simp add: Let_def begin_play_def mark_playing_def showToast_def split: option.splits)
next
  case (Stop_playback_settled i stop_error)
  with assms(1) absent_untrack [OF assms(1)] show ?thesis
    by (simp add: begin_play_def mark_playing_def split: suspended_call.splits option.splits)
next
  case (Cleanup_wait_over i)
  with assms(1) show ?thesis
    by (simp add: begin_play_def mark_playing_def split: suspended_call.splits)
next
  case (Play_dual_output_settled i play_result)
  with assms(2) have "play_result \<noteq> Inr p" by simp
  from absent_play_settled [OF assms(1) this] assms(1) Play_dual_output_settled show ?thesis
    by (simp split: suspended_call.splits)
next
  case StopAllAudio
  with assms(1) show ?thesis by simp
next
  case (Stop_all_audio_settled i stop_error)
  with assms(1) show ?thesis
    by (simp add: stopAllAudio_def showToast_def split: suspended_call.splits option.splits)
next
  case (Emitted name pl)
  with absent_emit [OF assms(1)] show ?thesis by simp
next
  case (Timer_fired i)
  have "playingSoundsRef (run_timer t st) = playingSoundsRef st" for t st
    by (cases t) simp_all
  with assms(1) Timer_fired show ?thesis by simp
qed

lemma absent_run:
  assumes "p \<notin> snd ` set (playingSoundsRef (dash a))"
    and "\<forall>i. Play_dual_output_settled i (Inr p) \<notin> set evs"
  shows "p \<notin> snd ` set (playingSoundsRef (dash (foldl (app_step sounds) a evs)))"
  using assms
proof (induction evs arbitrary: a)
  case Nil
  then show ?case by simp
next
  case (Cons e evs)
  from Cons.prems(2) have "\<forall>i. e \<noteq> Play_dual_output_settled i (Inr p)" by auto
  with Cons.prems(1) have "p \<notin> snd ` set (playingSoundsRef (dash (app_step sounds a e)))"
    by (rule absent_step)
  moreover from Cons.prems(2) have "\<forall>i. Play_dual_output_settled i (Inr p) \<notin> set evs" by auto
  ultimately show ?case using Cons.IH by simp
qed

text \<open>
  Claim C4.  Processing \<open>playback-complete\<close> for a playback id \<open>p\<close> removes \<open>p\<close> from the
  tracking map (playback ids in the map are pairwise different and no sound id is the
  empty string).  Once \<open>p\<close> is gone from the map it stays absent, whatever the component
  does next, as long as the backend does not hand out \<open>p\<close> again as a new playback id;
  and then a \<open>playback-progress\<close> event for \<open>p\<close> leaves the whole component state as it
  is, active waveform included, and so does a second \<open>playback-complete\<close> event for
  \<open>p\<close>.
\<close>

theorem completed_playback_events_ignored:
  "(distinct (map snd (playingSoundsRef st)) \<and> [] \<notin> set (map_keys (playingSoundsRef st))
      \<longrightarrow> p \<notin> snd ` set (playingSoundsRef (playback_complete sounds p st)))
   \<and> (p \<notin> snd ` set (playingSoundsRef (dash a))
        \<and> (\<forall>i. Play_dual_output_settled i (Inr p) \<notin> set evs) \<and> playback_id ev = p
      \<longrightarrow> p \<notin> snd ` set (playingSoundsRef (dash (foldl (app_step sounds) a evs)))
        \<and> playback_progress ev (dash (foldl (app_step sounds) a evs))
            = dash (foldl (app_step sounds) a evs)
        \<and> playback_complete sounds' p (dash (foldl (app_step sounds) a evs))
            = dash (foldl (app_step sounds) a evs))"
proof -
  have "p \<notin> snd ` set (playingSoundsRef (dash (foldl (app_step sounds) a evs)))
        \<and> playback_progress ev (dash (foldl (app_step sounds) a evs))
            = dash (foldl (app_step sounds) a evs)
        \<and> playback_complete sounds' p (dash (foldl (app_step sounds) a evs))
            = dash (foldl (app_step sounds) a evs)"
    if "p \<notin> snd ` set (playingSoundsRef (dash a))"
      and "\<forall>i. Play_dual_output_settled i (Inr p) \<notin> set evs" and "playback_id ev = p"
  proof -
    from that(1,2) have "p \<notin> snd ` set (playingSoundsRef (dash (foldl (app_step sounds) a evs)))"
      by (rule absent_run)
    with that(3) show ?thesis by (simp add: progress_noop complete_noop)
  qed
  with complete_removes [of st p sounds] show ?thesis by blast
qed

lemma ex_complete:
  "playback_complete [ex_sound] ''p1'' ex_playing =
     initial_dashboard\<lparr>isWaveformExiting := True, timers := [(300, Reset_exiting)]\<rparr>"
  by (simp add: playback_complete_def ex_playing_def ex_sound_def initial_dashboard_def untrack_def
      map_delete_def map_keys_def truthy_def waveform_for_def Let_def)

text \<open>
  Witness for C4: the sound \<open>s1\<close>, playing as \<open>p1\<close>, completes; then \<open>s2\<close> is started
  and plays as \<open>p2\<close>.  Events for \<open>p1\<close> that arrive after that change nothing.
\<close>

theorem completed_playback_events_ignored_witness:
  "playingSoundsRef ex_playing = [(''s1'', ''p1'')]
   \<and> playingSoundsRef (playback_complete [ex_sound] ''p1'' ex_playing) = []
   \<and> playingSoundsRef (dash (foldl (app_step [ex_sound])
         \<lparr>dash = playback_complete [ex_sound] ''p1'' ex_playing, calls = [], requests = []\<rparr>
         [PlaySound ''dev1'' ''dev2'' ex_other, Play_dual_output_settled 0 (Inr ''p2'')]))
       = [(''s2'', ''p2'')]
   \<and> playback_progress \<lparr>playback_id = ''p1'', elapsed_ms = 40, total_ms = 900, progress_pct = 4\<rparr>
       (dash (foldl (app_step [ex_sound])
         \<lparr>dash = playback_complete [ex_sound] ''p1'' ex_playing, calls = [], requests = []\<rparr>
         [PlaySound ''dev1'' ''dev2'' ex_other, Play_dual_output_settled 0 (Inr ''p2'')]))
       = dash (foldl (app_step [ex_sound])
         \<lparr>dash = playback_complete [ex_sound] ''p1'' ex_playing, calls = [], requests = []\<rparr>
         [PlaySound ''dev1'' ''dev2'' ex_other, Play_dual_output_settled 0 (Inr ''p2'')])
   \<and> playback_complete [ex_sound] ''p1''
       (dash (foldl (app_step [ex_sound])
         \<lparr>dash = playback_complete [ex_sound] ''p1'' ex_playing, calls = [], requests = []\<rparr>
         [PlaySound ''dev1'' ''dev2'' ex_other, Play_dual_output_settled 0 (Inr ''p2'')]))
       = dash (foldl (app_step [ex_sound])
         \<lparr>dash = playback_complete [ex_sound] ''p1'' ex_playing, calls = [], requests = []\<rparr>
         [PlaySound ''dev1'' ''dev2'' ex_other, Play_dual_output_settled 0 (Inr ''p2'')])"
proof -
  let ?a = "\<lparr>dash = playback_complete [ex_sound] ''p1'' ex_playing, calls = [], requests = []\<rparr>"
  let ?evs = "[PlaySound ''dev1'' ''dev2'' ex_other, Play_dual_output_settled 0 (Inr ''p2'')]"
  let ?ev = "\<lparr>playback_id = ''p1'', elapsed_ms = 40, total_ms = 900, progress_pct = 4\<rparr>"
  have h1: "distinct (map snd (playingSoundsRef ex_playing))
      \<and> [] \<notin> set (map_keys (playingSoundsRef ex_playing))"
    by (simp add: ex_playing_def map_keys_def)
  have h2: "(\<forall>i. Play_dual_output_settled i (Inr ''p1'') \<notin> set ?evs) \<and> playback_id ?ev = ''p1''"
    by simp
  have run: "playingSoundsRef (dash (foldl (app_step [ex_sound]) ?a ?evs)) = [(''s2'', ''p2'')]"
    by (simp add: ex_complete initial_dashboard_def ex_other_def truthy_def begin_play_def
        mark_playing_def play_settled_def remove_nth_def Let_def)
  from completed_playback_events_ignored [of ex_playing "''p1''" "[ex_sound]" ?a ?evs ?ev "[ex_sound]"]
    h1 h2
  have "playback_progress ?ev (dash (foldl (app_step [ex_sound]) ?a ?evs))
          = dash (foldl (app_step [ex_sound]) ?a ?evs)
      \<and> playback_complete [ex_sound] ''p1'' (dash (foldl (app_step [ex_sound]) ?a ?evs))
          = dash (foldl (app_step [ex_sound]) ?a ?evs)"
    by (simp add: ex_complete initial_dashboard_def)
  moreover have "playingSoundsRef ex_playing = [(''s1'', ''p1'')]"
    "playingSoundsRef (playback_complete [ex_sound] ''p1'' ex_playing) = []"
    by (simp_all add: ex_complete initial_dashboard_def) (simp add: ex_playing_def)
  ultimately show ?thesis using run by simp
qed

lemma distinct_keys_untrack:
  "distinct (map_keys (playingSoundsRef st)) \<Longrightarrow> distinct (map_keys (playingSoundsRef (untrack sid st)))"
  by (simp add: untrack_def map_keys_delete)

lemma restart_trace_distinct:
  assumes "distinct (map_keys (playingSoundsRef st))"
  shows "distinct (map_keys (playingSoundsRef (fst (playSound_restart sound stop_error st))))"
    and "\<forall>x \<in> set (snd (playSound_restart sound stop_error st)). distinct (map_keys (playingSoundsRef (snd x)))"
  using assms distinct_keys_untrack [OF assms, of "sound_id sound"]
  by (auto simp: playSound_restart_def Let_def split: option.splits)

lemma start_trace_distinct:
  assumes "distinct (map_keys (playingSoundsRef st))"
  shows "distinct (map_keys (playingSoundsRef (fst (playSound_start device1 device2 sound play_result st))))"
    and "\<forall>x \<in> set (snd (playSound_start device1 device2 sound play_result st)). distinct (map_keys (playingSoundsRef (snd x)))"
  using assms
  by (auto simp: playSound_start_def mark_playing_def play_settled_def Let_def untrack_def showToast_def map_keys_delete
      distinct_keys_map_set split: sum.splits)

lemma playSound_trace_distinct:
  assumes "distinct (map_keys (playingSoundsRef st))"
  shows "distinct (map_keys (playingSoundsRef (fst (playSound device1 device2 sound stop_error play_result st))))
       \<and> (\<forall>x \<in> set (snd (playSound device1 device2 sound stop_error play_result st)).
            distinct (map_keys (playingSoundsRef (snd x))))"
proof -
  let ?r = "playSound_restart sound stop_error st"
  have d1: "distinct (map_keys (playingSoundsRef (fst ?r)))"
    using assms by (rule restart_trace_distinct)
  show ?thesis
    using assms restart_trace_distinct(2) [OF assms, of sound stop_error]
      start_trace_distinct [OF d1, of device1 device2 sound play_result]
    by (auto simp: playSound_def split_beta Let_def showToast_def)
qed

text \<open>
  Claim C1, as amended.  With both output devices configured, a non-empty playback id \<open>p\<close>
  tracked for the sound and a \<open>stop_playback\<close> call that succeeds, \<open>playSound\<close> first
  issues \<open>stop_playback\<close> for \<open>p\<close>, then removes the sound from the map and from the
  playing set, then waits 100 ms, and only then issues \<open>play_dual_output\<close>; when that
  command is issued the sound has no entry in the map.  Whatever the backend answers,
  the map never holds two entries for one sound id, neither in the states in which a
  request is issued nor in the final state.
\<close>

theorem playSound_restart_stops_first:
  assumes "truthy device1" and "truthy device2"
    and "map_get (playingSoundsRef st) (sound_id sound) = Some p" and "truthy p"
  shows "(let st1 = untrack (sound_id sound) st;
              st2 = st1\<lparr>playingSoundIds := insert (sound_id sound) (playingSoundIds st1)\<rparr>
          in snd (playSound device1 device2 sound None play_result st) =
               [(Invoke ''stop_playback'' [(''playbackId'', JStr p)], st),
                (SetTimeout 100, st1),
                (Invoke ''play_dual_output'' (play_args device1 device2 sound (volume st)), st2)]
             \<and> map_get (playingSoundsRef st1) (sound_id sound) = None
             \<and> sound_id sound \<notin> playingSoundIds st1
             \<and> map_get (playingSoundsRef st2) (sound_id sound) = None)
         \<and> (distinct (map_keys (playingSoundsRef st)) \<longrightarrow>
              distinct (map_keys (playingSoundsRef
                 (fst (playSound device1 device2 sound stop_error play_result st))))
              \<and> (\<forall>x \<in> set (snd (playSound device1 device2 sound stop_error play_result st)).
                    distinct (map_keys (playingSoundsRef (snd x)))))"
proof -
  have "snd (playSound device1 device2 sound None play_result st) =
               [(Invoke ''stop_playback'' [(''playbackId'', JStr p)], st),
                (SetTimeout 100, untrack (sound_id sound) st),
                (Invoke ''play_dual_output'' (play_args device1 device2 sound (volume st)),
                 (untrack (sound_id sound) st)\<lparr>playingSoundIds :=
                    insert (sound_id sound) (playingSoundIds (untrack (sound_id sound) st))\<rparr>)]"
    using assms
    by (simp add: playSound_def playSound_restart_def playSound_start_def mark_playing_def play_settled_def Let_def untrack_def
        split: sum.splits)
  moreover have "map_get (playingSoundsRef (untrack (sound_id sound) st)) (sound_id sound) = None"
    by (simp add: untrack_def map_get_delete_same)
  moreover have "sound_id sound \<notin> playingSoundIds (untrack (sound_id sound) st)"
    by (simp add: untrack_def)
  ultimately show ?thesis
    using playSound_trace_distinct [of st device1 device2 sound stop_error play_result]
    by (simp add: Let_def)
qed

lemma ex_restart_trace:
  "snd (playSound ''dev1'' ''dev2'' ex_sound None (Inr ''p2'') ex_playing) =
     [(Invoke ''stop_playback'' [(''playbackId'', JStr ''p1'')], ex_playing),
      (SetTimeout 100, ex_playing\<lparr>playingSoundIds := {}, playingSoundsRef := []\<rparr>),
      (Invoke ''play_dual_output''
         [(''filePath'', JStr ''C:/sounds/airhorn.mp3''), (''deviceId1'', JStr ''dev1''),
          (''deviceId2'', JStr ''dev2''), (''volume'', JNum 0.8), (''trimStartMs'', JNull),
          (''trimEndMs'', JNum 1500)],
       ex_playing\<lparr>playingSoundIds := {''s1''}, playingSoundsRef := []\<rparr>)]"
  by (simp add: playSound_def playSound_restart_def playSound_start_def mark_playing_def play_settled_def ex_playing_def
        ex_sound_def initial_dashboard_def untrack_def map_delete_def truthy_def Let_def
        play_args_def nullable_def)

text \<open>Witness for C1: the sound \<open>s1\<close>, playing as \<open>p1\<close>, is triggered again.\<close>

theorem playSound_restart_stops_first_witness:
  "truthy ''dev1'' \<and> truthy ''dev2'' \<and> truthy ''p1''
   \<and> map_get (playingSoundsRef ex_playing) (sound_id ex_sound) = Some ''p1''
   \<and> distinct (map_keys (playingSoundsRef ex_playing))
   \<and> map fst (snd (playSound ''dev1'' ''dev2'' ex_sound None (Inr ''p2'') ex_playing)) =
     [Invoke ''stop_playback'' [(''playbackId'', JStr ''p1'')],
      SetTimeout 100,
      Invoke ''play_dual_output'' (play_args ''dev1'' ''dev2'' ex_sound (volume ex_playing))]
   \<and> distinct (map_keys (playingSoundsRef
         (fst (playSound ''dev1'' ''dev2'' ex_sound None (Inr ''p2'') ex_playing))))"
proof -
  have h: "truthy ''dev1''" "truthy ''dev2''" "truthy ''p1''"
    "map_get (playingSoundsRef ex_playing) (sound_id ex_sound) = Some ''p1''"
    "distinct (map_keys (playingSoundsRef ex_playing))"
    by (simp_all add: truthy_def ex_playing_def ex_sound_def map_keys_def)
  from playSound_restart_stops_first [OF h(1) h(2) h(4) h(3),
      where play_result = "Inr ''p2''" and stop_error = None] h
  show ?thesis by (simp add: Let_def)
qed

text \<open>
  Counterexample to C1 as stated.  When \<open>stop_playback\<close> rejects, the entry of the prior
  playback is still in the map when \<open>play_dual_output\<close> is issued, and there is no wait.
  When a device is not configured, no command is issued at all.
\<close>

theorem playSound_restart_counterexample:
  "map_get (playingSoundsRef ex_playing) (sound_id ex_sound) = Some ''p1''
   \<and> snd (playSound ''dev1'' ''dev2'' ex_sound (Some ''stop failed'') (Inr ''p2'') ex_playing) =
       [(Invoke ''stop_playback'' [(''playbackId'', JStr ''p1'')], ex_playing),
        (Invoke ''play_dual_output'' (play_args ''dev1'' ''dev2'' ex_sound (volume ex_playing)),
         ex_playing)]
   \<and> snd (playSound [] ''dev2'' ex_sound None (Inr ''p2'') ex_playing) = []"
  by (simp add: playSound_def playSound_restart_def playSound_start_def mark_playing_def play_settled_def ex_playing_def
        ex_sound_def initial_dashboard_def truthy_def Let_def)

text \<open>
  Claim C3.  For a sound with no entry in the map and not in the playing set, a
  \<open>playSound\<close> call whose \<open>play_dual_output\<close> rejects leaves the map and the playing
  set as they were: the sound is in neither, the number of tracked playbacks is the same,
  and the active waveform is untouched.  In any interleaving, the step in which
  \<open>play_dual_output\<close> rejects leaves the sound in neither the map nor the playing set
  and touches no entry of another sound.
\<close>

theorem failed_play_leaves_tracking_unchanged:
  "(map_get (playingSoundsRef st) (sound_id sound) = None \<and> sound_id sound \<notin> playingSoundIds st
      \<longrightarrow>
        (let st' = fst (playSound device1 device2 sound stop_error (Inl error) st)
         in playingSoundsRef st' = playingSoundsRef st
          \<and> playingSoundIds st' = playingSoundIds st
          \<and> map_get (playingSoundsRef st') (sound_id sound) = None
          \<and> sound_id sound \<notin> playingSoundIds st'
          \<and> length (playingSoundsRef st') = length (playingSoundsRef st)
          \<and> activeWaveform st' = activeWaveform st))
   \<and> (i < length (calls a) \<and> calls a ! i = Awaiting_play sound
      \<longrightarrow>
        (let d = dash (app_step sounds a (Play_dual_output_settled i (Inl error)))
         in map_get (playingSoundsRef d) (sound_id sound) = None
          \<and> sound_id sound \<notin> playingSoundIds d
          \<and> playingSoundsRef d = map_delete (playingSoundsRef (dash a)) (sound_id sound)
          \<and> playingSoundIds d = playingSoundIds (dash a) - {sound_id sound}
          \<and> activeWaveform d = activeWaveform (dash a)))"
proof (intro conjI impI)
  assume h: "map_get (playingSoundsRef st) (sound_id sound) = None \<and> sound_id sound \<notin> playingSoundIds st"
  then have "map_delete (playingSoundsRef st) (sound_id sound) = playingSoundsRef st"
    by (simp add: map_get_None_iff map_delete_absent)
  with h show "let st' = fst (playSound device1 device2 sound stop_error (Inl error) st)
         in playingSoundsRef st' = playingSoundsRef st
          \<and> playingSoundIds st' = playingSoundIds st
          \<and> map_get (playingSoundsRef st') (sound_id sound) = None
          \<and> sound_id sound \<notin> playingSoundIds st'
          \<and> length (playingSoundsRef st') = length (playingSoundsRef st)
          \<and> activeWaveform st' = activeWaveform st"
    by (simp add: playSound_def playSound_restart_def playSound_start_def mark_playing_def
        play_settled_def Let_def untrack_def showToast_def)
next
  assume "i < length (calls a) \<and> calls a ! i = Awaiting_play sound"
  then show "let d = dash (app_step sounds a (Play_dual_output_settled i (Inl error)))
         in map_get (playingSoundsRef d) (sound_id sound) = None
          \<and> sound_id sound \<notin> playingSoundIds d
          \<and> playingSoundsRef d = map_delete (playingSoundsRef (dash a)) (sound_id sound)
          \<and> playingSoundIds d = playingSoundIds (dash a) - {sound_id sound}
          \<and> activeWaveform d = activeWaveform (dash a)"
    by (simp add: play_settled_def untrack_def showToast_def map_get_delete_same)
qed

text \<open>
  Witness for C3: playing \<open>s2\<close> on a device the backend does not know, without
  interruption and as a call that was waiting while \<open>s1\<close> was started.
\<close>

theorem failed_play_leaves_tracking_unchanged_witness:
  "map_get (playingSoundsRef ex_playing) (sound_id ex_other) = None
   \<and> sound_id ex_other \<notin> playingSoundIds ex_playing
   \<and> playingSoundsRef (fst (playSound ''dev1'' ''nonexistent'' ex_other None
         (Inl ''Device not found'') ex_playing)) = [(''s1'', ''p1'')]
   \<and> playingSoundIds (fst (playSound ''dev1'' ''nonexistent'' ex_other None
         (Inl ''Device not found'') ex_playing)) = {''s1''}
   \<and> toastMessage (fst (playSound ''dev1'' ''nonexistent'' ex_other None
         (Inl ''Device not found'') ex_playing)) = Some ''Error: Device not found''
   \<and> calls \<lparr>dash = mark_playing ex_other ex_playing, calls = [Awaiting_play ex_other], requests = []\<rparr> ! 0
       = Awaiting_play ex_other
   \<and> playingSoundsRef (dash (app_step []
         \<lparr>dash = mark_playing ex_other ex_playing, calls = [Awaiting_play ex_other], requests = []\<rparr>
         (Play_dual_output_settled 0 (Inl ''Device not found'')))) = [(''s1'', ''p1'')]
   \<and> playingSoundIds (dash (app_step []
         \<lparr>dash = mark_playing ex_other ex_playing, calls = [Awaiting_play ex_other], requests = []\<rparr>
         (Play_dual_output_settled 0 (Inl ''Device not found'')))) = {''s1''}"
proof -
  let ?a = "\<lparr>dash = mark_playing ex_other ex_playing, calls = [Awaiting_play ex_other], requests = []\<rparr>"
  have h: "map_get (playingSoundsRef ex_playing) (sound_id ex_other) = None
      \<and> sound_id ex_other \<notin> playingSoundIds ex_playing"
    "0 < length (calls ?a) \<and> calls ?a ! 0 = Awaiting_play ex_other"
    by (simp_all add: ex_playing_def ex_other_def)
  have t: "toastMessage (fst (playSound ''dev1'' ''nonexistent'' ex_other None
         (Inl ''Device not found'') ex_playing)) = Some ''Error: Device not found''"
    by (simp add: playSound_def playSound_restart_def playSound_start_def mark_playing_def
        play_settled_def ex_playing_def ex_other_def truthy_def Let_def untrack_def showToast_def)
  have e: "playingSoundsRef ex_playing = [(''s1'', ''p1'')]" "playingSoundIds ex_playing = {''s1''}"
    "sound_id ex_other = ''s2''"
    by (simp_all add: ex_playing_def ex_other_def)
  from failed_play_leaves_tracking_unchanged [of ex_playing ex_other "''dev1''" "''nonexistent''"
      None "''Device not found''" 0 ?a "[]"] h t
  show ?thesis
    by (simp add: Let_def e mark_playing_def map_delete_def)
qed

text \<open>
  Claim C6, as amended.  The component listens for decode errors under the event name
  \<open>audio-decode-error\<close> and shows them as a toast; completions arrive on
  \<open>playback-complete\<close> and progress on \<open>playback-progress\<close>.  An event named
  \<open>decode-error\<close> reaches no listener.
\<close>

theorem audio_event_channels:
  "emit sounds ''audio-decode-error'' (PString e) st = showToast (''Decode Error: '' @ e) st
   \<and> emit sounds ''playback-complete'' (PString p) st = playback_complete sounds p st
   \<and> emit sounds ''playback-progress'' (PProgress ev) st = playback_progress ev st
   \<and> emit sounds ''decode-error'' pl st = st"
  by (simp add: emit_def Dashboard_listeners_def)

text \<open>
  Counterexample to C6 as stated: a decode failure emitted as \<open>decode-error\<close> changes
  nothing, no toast is shown; emitted as \<open>audio-decode-error\<close> it is.
\<close>

theorem decode_error_channel_counterexample:
  "emit [] ''decode-error'' (PString ''unsupported format'') initial_dashboard = initial_dashboard
   \<and> toastMessage (emit [] ''decode-error'' (PString ''unsupported format'') initial_dashboard) = None
   \<and> toastMessage (emit [] ''audio-decode-error'' (PString ''unsupported format'') initial_dashboard)
       = Some ''Decode Error: unsupported format''"
  by (simp add: emit_def Dashboard_listeners_def initial_dashboard_def showToast_def)

section \<open>Properties of the settings and of the gain calculator\<close>

lemma range_input_value_bounds:
  assumes "mn \<le> mx" and "0 < stp"
  shows "mn \<le> range_input_value mn mx stp v \<and> range_input_value mn mx stp v \<le> mx"
proof -
  define c where "c = max mn (min mx v)"
  define k where "k = round ((c - mn) / stp)"
  have c: "mn \<le> c" "c \<le> mx" using assms by (auto simp: c_def)
  have "0 \<le> (c - mn) / stp" using c assms by simp
  then have k0: "0 \<le> k" unfolding k_def by (simp add: round_def)
  have "of_int k \<le> (c - mn) / stp + 1 / 2"
    unfolding k_def by (rule of_int_round_le)
  then have "of_int k * stp \<le> ((c - mn) / stp + 1 / 2) * stp"
    using assms(2) by (simp add: mult_right_mono)
  also have "\<dots> = c - mn + stp / 2" using assms(2) by (simp add: field_simps)
  finally have up: "mn + of_int k * stp \<le> c + stp / 2" by simp
  have val: "range_input_value mn mx stp v =
      (if mn + of_int k * stp > mx then mn + of_int k * stp - stp else mn + of_int k * stp)"
    by (simp add: range_input_value_def Let_def c_def k_def)
  show ?thesis
  proof (cases "mn + of_int k * stp > mx")
    case True
    then have "0 < of_int k * stp" using assms(1) by simp
    then have "0 < k" using assms(2) k0
      by (metis mult_eq_0_iff of_int_0 order_less_irrefl order_le_less)
    then have "1 \<le> (of_int k :: real)" by simp
    then have "stp \<le> of_int k * stp" using assms(2) by simp
    moreover have "mn + of_int k * stp - stp \<le> mx" using up c(2) assms(2) by simp
    ultimately show ?thesis using True val by simp
  next
    case False
    moreover have "0 \<le> of_int k * stp" using k0 assms(2) by simp
    ultimately show ?thesis using val by simp
  qed
qed

lemma boost_toggle_value:
  "volume_multiplier (boost_toggle checked s) = (if checked then 2 else 1)"
  by (simp add: boost_toggle_def)

lemma boost_slider_range:
  "1.1 \<le> volume_multiplier (boost_slider v s) \<and> volume_multiplier (boost_slider v s) \<le> 3"
  using range_input_value_bounds [of "1.1" "3.0" "0.1" v]
  by (simp add: boost_slider_def)

lemma boost_step_range:
  "1 \<le> volume_multiplier s \<and> volume_multiplier s \<le> 3 \<Longrightarrow>
   1 \<le> volume_multiplier (boost_step s e) \<and> volume_multiplier (boost_step s e) \<le> 3"
proof (cases e)
  case (Toggle checked)
  then show ?thesis by (simp add: boost_toggle_value)
next
  case (Slide v)
  assume "1 \<le> volume_multiplier s \<and> volume_multiplier s \<le> 3"
  with Slide boost_slider_range [of v s] show ?thesis by auto
qed

lemma boost_reachable_range:
  "1 \<le> volume_multiplier s \<and> volume_multiplier s \<le> 3 \<Longrightarrow>
   1 \<le> volume_multiplier (foldl boost_step s evs) \<and> volume_multiplier (foldl boost_step s evs) \<le> 3"
proof (induction evs arbitrary: s)
  case Nil
  then show ?case by simp
next
  case (Cons e evs)
  from Cons.prems have "1 \<le> volume_multiplier (boost_step s e) \<and> volume_multiplier (boost_step s e) \<le> 3"
    by (rule boost_step_range)
  then show ?case using Cons.IH by simp
qed

text \<open>
  Claim C7.  The boost checkbox writes exactly 2.0 when it is checked and 1.0 when it is
  cleared; the boost slider writes a value in \<open>[1.1, 3.0]\<close>; and whatever the user does
  with the two controls, starting from the component's initial settings,
  \<open>volume_multiplier\<close> stays in \<open>[1.0, 3.0]\<close>.
\<close>

theorem volume_multiplier_range:
  "volume_multiplier (boost_toggle True s) = 2
   \<and> volume_multiplier (boost_toggle False s) = 1
   \<and> 1.1 \<le> volume_multiplier (boost_slider v s) \<and> volume_multiplier (boost_slider v s) \<le> 3
   \<and> 1 \<le> volume_multiplier (foldl boost_step initial_settings evs)
   \<and> volume_multiplier (foldl boost_step initial_settings evs) \<le> 3"
  using boost_slider_range [of v s] boost_reachable_range [of initial_settings evs]
  by (simp add: boost_toggle_value initial_settings_def)

lemma loudness_gain_range:
  "0.1 \<le> loudness_gain en l t \<and> loudness_gain en l t \<le> 4"
proof (cases l)
  case None
  then show ?thesis by (simp add: loudness_gain_def)
next
  case (Some v)
  have "(0.1::real) \<le> max 0.1 (min 4.0 (10 powr ((t - v) / 20)))"
    by (rule max.cobounded1)
  moreover have "max 0.1 (min 4.0 (10 powr ((t - v) / 20))) \<le> (4::real)"
    by (rule max.boundedI) simp_all
  ultimately show ?thesis using Some by (cases en) (simp_all add: loudness_gain_def)
qed

lemma slider_curve_mono: "0 \<le> s \<Longrightarrow> s \<le> t \<Longrightarrow> slider_curve s \<le> slider_curve t"
  by (simp add: slider_curve_def power_mono)

text \<open>
  Claim C8.  For a non-negative ceiling and per-sound volume and a global multiplier in
  \<open>[1.0, 3.0]\<close>, the gain is non-decreasing in the slider on \<open>[0, 1]\<close>, is 0 at slider 0,
  and at slider 1 is \<open>0.2 \<times> global_multiplier \<times> loudness_gain \<times> per_sound_volume\<close>
  clamped to the ceiling.
\<close>

theorem compute_gain_monotone:
  assumes "0 \<le> gain_ceiling" and "0 \<le> per_sound_volume"
    and "1 \<le> global_multiplier" and "global_multiplier \<le> 3"
  shows "(\<forall>s t. 0 \<le> s \<and> s \<le> t \<and> t \<le> 1 \<longrightarrow>
            compute_gain gain_ceiling s per_sound_volume global_multiplier loudness enabled target
              \<le> compute_gain gain_ceiling t per_sound_volume global_multiplier loudness enabled target)
       \<and> compute_gain gain_ceiling 0 per_sound_volume global_multiplier loudness enabled target = 0
       \<and> compute_gain gain_ceiling 1 per_sound_volume global_multiplier loudness enabled target =
           min gain_ceiling (0.2 * global_multiplier * loudness_gain enabled loudness target * per_sound_volume)"
proof -
  let ?lg = "loudness_gain enabled loudness target"
  have lg: "0 \<le> ?lg" using loudness_gain_range [of enabled loudness target] by simp
  have f: "0 \<le> global_multiplier * ?lg * per_sound_volume"
    using assms lg by simp
  have mono: "compute_gain gain_ceiling s per_sound_volume global_multiplier loudness enabled target
              \<le> compute_gain gain_ceiling t per_sound_volume global_multiplier loudness enabled target"
    if "0 \<le> s" "s \<le> t" for s t
  proof -
    have "slider_curve s * (global_multiplier * ?lg * per_sound_volume)
        \<le> slider_curve t * (global_multiplier * ?lg * per_sound_volume)"
      using slider_curve_mono [OF that] f by (rule mult_right_mono)
    then show ?thesis
      by (simp add: compute_gain_def mult.assoc min.coboundedI2)
  qed
  have zero: "compute_gain gain_ceiling 0 per_sound_volume global_multiplier loudness enabled target = 0"
    using assms(1) by (simp add: compute_gain_def slider_curve_def)
  have one: "compute_gain gain_ceiling 1 per_sound_volume global_multiplier loudness enabled target =
           min gain_ceiling (0.2 * global_multiplier * ?lg * per_sound_volume)"
    by (simp add: compute_gain_def slider_curve_def)
  from mono zero one show ?thesis by blast
qed

text \<open>Witness for C8: ceiling 1, per-sound volume 1, multiplier 2, no normalization.\<close>

theorem compute_gain_monotone_witness:
  "compute_gain 1 (1/2) 1 2 None False (-14) \<le> compute_gain 1 1 1 2 None False (-14)
   \<and> compute_gain 1 0 1 2 None False (-14) = 0
   \<and> compute_gain 1 1 1 2 None False (-14) = 0.4
   \<and> compute_gain 1 1 1 3 (Some (-14)) True (-14) = 0.6"
proof -
  have h: "(0::real) \<le> 1" "(1::real) \<le> 2" "(2::real) \<le> 3" by simp_all
  from compute_gain_monotone [OF h(1) h(1) h(2) h(3), of None False "-14"]
  have "\<forall>s t. 0 \<le> s \<and> s \<le> t \<and> t \<le> 1 \<longrightarrow>
          compute_gain 1 s 1 2 None False (-14) \<le> compute_gain 1 t 1 2 None False (-14)"
    by (rule conjunct1)
  from this [rule_format, of "1/2" 1]
  have "compute_gain 1 (1/2) 1 2 None False (-14) \<le> compute_gain 1 1 1 2 None False (-14)"
    by simp
  moreover have "compute_gain 1 0 1 2 None False (-14) = 0"
    "compute_gain 1 1 1 2 None False (-14) = 0.4"
    "compute_gain 1 1 1 3 (Some (-14)) True (-14) = 0.6"
    by (simp_all add: compute_gain_def slider_curve_def loudness_gain_def)
  ultimately show ?thesis by simp
qed

section \<open>Properties of the waveform queue and of the exposed commands\<close>

lemma queue_inv_initial: "queue_inv initial_queue"
  by (simp add: queue_inv_def initial_queue_def outstanding_def)

lemma activations_cases:
  assumes "length as \<le> 1"
  obtains "as = []" | item where "as = [Awaiting_invoke item]" | "as = [Awaiting_delay]"
proof (cases as)
  case Nil
  then show ?thesis using that by simp
next
  case (Cons a rest)
  with assms have "rest = []" by simp
  with Cons show ?thesis using that by (cases a) simp_all
qed

lemma queue_inv_add: "queue_inv q \<Longrightarrow> queue_inv (add fp np q)"
proof -
  assume inv: "queue_inv q"
  then have len: "length (activations q) \<le> 1" by (simp add: queue_inv_def)
  from len show ?thesis
  proof (cases rule: activations_cases)
    case 1
    with inv show ?thesis
      by (simp add: queue_inv_def add_def process_def process_loop_def Let_def outstanding_def)
  next
    case (2 item)
    with inv show ?thesis
      by (simp add: queue_inv_def add_def process_def Let_def outstanding_def)
  next
    case 3
    with inv show ?thesis
      by (simp add: queue_inv_def add_def process_def Let_def outstanding_def)
  qed
qed

lemma queue_inv_invoke_returns: "queue_inv q \<Longrightarrow> queue_inv (invoke_returns i result q)"
proof -
  assume inv: "queue_inv q"
  then have len: "length (activations q) \<le> 1" by (simp add: queue_inv_def)
  from len show ?thesis
  proof (cases rule: activations_cases)
    case 1
    with inv show ?thesis by (simp add: invoke_returns_def)
  next
    case (2 item)
    show ?thesis
    proof (cases "queue q")
      case Nil
      with 2 inv show ?thesis
        by (cases i) (simp_all add: queue_inv_def invoke_returns_def process_loop_def Let_def
            outstanding_def remove_nth_def)
    next
      case (Cons x rest)
      with 2 inv show ?thesis
        by (cases i) (simp_all add: queue_inv_def invoke_returns_def Let_def
            outstanding_def remove_nth_def)
    qed
  next
    case 3
    with inv show ?thesis by (cases i) (simp_all add: invoke_returns_def)
  qed
qed

lemma queue_inv_delay_elapsed: "queue_inv q \<Longrightarrow> queue_inv (delay_elapsed i q)"
proof -
  assume inv: "queue_inv q"
  then have len: "length (activations q) \<le> 1" by (simp add: queue_inv_def)
  from len show ?thesis
  proof (cases rule: activations_cases)
    case 1
    with inv show ?thesis by (simp add: delay_elapsed_def)
  next
    case (2 item)
    with inv show ?thesis by (cases i) (simp_all add: delay_elapsed_def)
  next
    case 3
    with inv obtain x rest where "queue q = x # rest"
      by (cases "queue q") (simp_all add: queue_inv_def)
    with 3 inv show ?thesis
      by (cases i) (simp_all add: queue_inv_def delay_elapsed_def process_loop_def
          outstanding_def remove_nth_def)
  qed
qed

lemma queue_inv_step: "queue_inv q \<Longrightarrow> queue_inv (queue_step q e)"
  by (cases e) (simp_all add: queue_inv_add queue_inv_invoke_returns queue_inv_delay_elapsed)

lemma queue_inv_run: "queue_inv q \<Longrightarrow> queue_inv (foldl queue_step q evs)"
  by (induction evs arbitrary: q) (simp_all add: queue_inv_step)

lemma drain_idle: "activations q = [] \<Longrightarrow> drain n backend q = q"
  by (cases n) simp_all

lemma drain_settles_all:
  assumes "queue_inv q" and "events_left q \<le> n"
  shows "activations (drain n backend q) = []
       \<and> queue (drain n backend q) = []
       \<and> settled (drain n backend q) =
           settled q @ map (\<lambda>item. (promise item, settlement_of (backend item)))
                         (outstanding q @ queue q)
       \<and> invoked (drain n backend q) = invoked q @ map get_waveform_call (queue q)
       \<and> added (drain n backend q) = added q"
  using assms
proof (induction n arbitrary: q)
  case 0
  then have len: "length (activations q) \<le> 1" by (simp add: queue_inv_def)
  from len show ?case
  proof (cases rule: activations_cases)
    case 1
    with "0.prems" show ?thesis by (simp add: queue_inv_def outstanding_def)
  next
    case (2 item)
    with "0.prems" show ?thesis by (simp add: events_left_def)
  next
    case 3
    with "0.prems" show ?thesis by (auto simp: events_left_def queue_inv_def)
  qed
next
  case (Suc n)
  then have inv: "queue_inv q" and len: "length (activations q) \<le> 1"
    by (simp_all add: queue_inv_def)
  from len show ?case
  proof (cases rule: activations_cases)
    case 1
    with inv show ?thesis by (simp add: queue_inv_def outstanding_def)
  next
    case (2 item)
    let ?q' = "invoke_returns 0 (backend item) q"
    have inv': "queue_inv ?q'" using inv by (rule queue_inv_invoke_returns)
    show ?thesis
    proof (cases "queue q")
      case Nil
      with 2 have q': "activations ?q' = []" "queue ?q' = []"
          "settled ?q' = settled q @ [(promise item, settlement_of (backend item))]"
          "invoked ?q' = invoked q" "added ?q' = added q"
        by (simp_all add: invoke_returns_def process_loop_def remove_nth_def Let_def settlement_of_def)
      from q'(1) have "drain n backend ?q' = ?q'" by (rule drain_idle)
      with 2 Nil q' show ?thesis by (simp add: outstanding_def)
    next
      case (Cons x rest)
      with 2 have q': "activations ?q' = [Awaiting_delay]" "queue ?q' = queue q"
          "settled ?q' = settled q @ [(promise item, settlement_of (backend item))]"
          "invoked ?q' = invoked q" "added ?q' = added q"
        by (simp_all add: invoke_returns_def remove_nth_def Let_def settlement_of_def)
      from q' 2 Suc.prems(2) have "events_left ?q' \<le> n" by (simp add: events_left_def)
      from Suc.IH [OF inv' this] 2 q' show ?thesis by (simp add: outstanding_def)
    qed
  next
    case 3
    with inv obtain x rest where qu: "queue q = x # rest"
      by (cases "queue q") (simp_all add: queue_inv_def)
    let ?q' = "delay_elapsed 0 q"
    have inv': "queue_inv ?q'" using inv by (rule queue_inv_delay_elapsed)
    from 3 qu have q': "activations ?q' = [Awaiting_invoke x]" "queue ?q' = rest"
        "settled ?q' = settled q" "invoked ?q' = invoked q @ [get_waveform_call x]"
        "added ?q' = added q"
      by (simp_all add: delay_elapsed_def process_loop_def remove_nth_def)
    from q' 3 qu Suc.prems(2) have "events_left ?q' \<le> n" by (simp add: events_left_def)
    from Suc.IH [OF inv' this] 3 qu q' show ?thesis by (simp add: outstanding_def)
  qed
qed

lemma events_left_bound: "events_left q \<le> 2 * length (queue q) + 1"
  by (simp add: events_left_def split: list.splits suspended.splits)

lemma outstanding_length: "length (activations q) \<le> 1 \<Longrightarrow> length (outstanding q) \<le> 1"
  by (erule activations_cases) (simp_all add: outstanding_def)

text \<open>
  Claim C9.  In every state the queue can reach: at most one \<open>get_waveform\<close> call is
  outstanding; the calls issued so far, followed by the calls for the requests still
  queued, are the calls for the requests in the order they were added; the promises of
  the added requests are pairwise different and each is either settled (once), awaiting
  the outstanding call, or queued, in that order.  Once the backend has answered every
  call and every delay has run out, nothing is outstanding or queued, every added
  request has had its call, and each request not settled before has been settled once:
  resolved with the data its call returned, or rejected with the call's error.
\<close>

theorem waveform_queue_serial_fifo:
  "(let q = foldl queue_step initial_queue evs in
      length (outstanding q) \<le> 1
      \<and> map get_waveform_call (added q) = invoked q @ map get_waveform_call (queue q)
      \<and> distinct (map promise (added q))
      \<and> map promise (added q) =
          map fst (settled q) @ map promise (outstanding q) @ map promise (queue q)
      \<and> (\<forall>n. 2 * length (queue q) + 1 \<le> n \<longrightarrow>
            outstanding (drain n backend q) = []
            \<and> queue (drain n backend q) = []
            \<and> invoked (drain n backend q) = map get_waveform_call (added q)
            \<and> settled (drain n backend q) =
                settled q @ map (\<lambda>item. (promise item, settlement_of (backend item)))
                              (outstanding q @ queue q)
            \<and> map fst (settled (drain n backend q)) = map promise (added q)))"
proof -
  define q where "q = foldl queue_step initial_queue evs"
  have inv: "queue_inv q"
    unfolding q_def using queue_inv_initial by (rule queue_inv_run)
  then have len: "length (activations q) \<le> 1" by (simp add: queue_inv_def)
  have a: "length (outstanding q) \<le> 1" using len by (rule outstanding_length)
  have b: "map get_waveform_call (added q) = invoked q @ map get_waveform_call (queue q)"
    using inv by (simp add: queue_inv_def)
  have ids: "map promise (added q) = [0..<promises q]"
    using inv by (simp add: queue_inv_def)
  then have c: "distinct (map promise (added q))" by simp
  have d: "map promise (added q) =
          map fst (settled q) @ map promise (outstanding q) @ map promise (queue q)"
    using inv by (simp add: queue_inv_def)
  have e: "outstanding (drain n backend q) = []
            \<and> queue (drain n backend q) = []
            \<and> invoked (drain n backend q) = map get_waveform_call (added q)
            \<and> settled (drain n backend q) =
                settled q @ map (\<lambda>item. (promise item, settlement_of (backend item)))
                              (outstanding q @ queue q)
            \<and> map fst (settled (drain n backend q)) = map promise (added q)"
    if "2 * length (queue q) + 1 \<le> n" for n
  proof -
    from that events_left_bound [of q] have "events_left q \<le> n" by simp
    from drain_settles_all [OF inv this, of backend] b d show ?thesis
      by (simp add: outstanding_def comp_def)
  qed
  from a b c d e show ?thesis
    unfolding q_def [symmetric] Let_def by blast
qed

lemma ex_events_state:
  "foldl queue_step initial_queue ex_events =
     \<lparr>queue = [\<lparr>filePath' = ''b.mp3'', numPeaks = 50, promise = 1\<rparr>],
      isProcessing = True,
      activations = [Awaiting_invoke \<lparr>filePath' = ''a.mp3'', numPeaks = 100, promise = 0\<rparr>],
      promises = 2,
      added = [\<lparr>filePath' = ''a.mp3'', numPeaks = 100, promise = 0\<rparr>,
               \<lparr>filePath' = ''b.mp3'', numPeaks = 50, promise = 1\<rparr>],
      invoked = [Invoke ''get_waveform'' [(''filePath'', JStr ''a.mp3''), (''numPeaks'', JNum 100)]],
      settled = []\<rparr>"
  by (simp add: ex_events_def initial_queue_def add_def process_def process_loop_def Let_def
      get_waveform_call_def)

text \<open>
  Witness for C9: two requests are added; the backend resolves the first call and
  rejects the second.
\<close>

theorem waveform_queue_serial_fifo_witness:
  "outstanding (foldl queue_step initial_queue ex_events) =
     [\<lparr>filePath' = ''a.mp3'', numPeaks = 100, promise = 0\<rparr>]
   \<and> queue (foldl queue_step initial_queue ex_events) =
     [\<lparr>filePath' = ''b.mp3'', numPeaks = 50, promise = 1\<rparr>]
   \<and> 2 * length (queue (foldl queue_step initial_queue ex_events)) + 1 \<le> 3
   \<and> invoked (drain 3 ex_backend (foldl queue_step initial_queue ex_events)) =
     [Invoke ''get_waveform'' [(''filePath'', JStr ''a.mp3''), (''numPeaks'', JNum 100)],
      Invoke ''get_waveform'' [(''filePath'', JStr ''b.mp3''), (''numPeaks'', JNum 50)]]
   \<and> settled (drain 3 ex_backend (foldl queue_step initial_queue ex_events)) =
     [(0, Resolve \<lparr>peaks = [0.5, 1], duration_ms = 1200\<rparr>), (1, Reject ''decode failed'')]"
proof -
  let ?q = "foldl queue_step initial_queue ex_events"
  have n: "2 * length (queue ?q) + 1 \<le> 3" by (simp add: ex_events_state)
  from waveform_queue_serial_fifo [of ex_events ex_backend]
  have "\<forall>n. 2 * length (queue ?q) + 1 \<le> n \<longrightarrow>
            outstanding (drain n ex_backend ?q) = []
            \<and> queue (drain n ex_backend ?q) = []
            \<and> invoked (drain n ex_backend ?q) = map get_waveform_call (added ?q)
            \<and> settled (drain n ex_backend ?q) =
                settled ?q @ map (\<lambda>item. (promise item, settlement_of (ex_backend item)))
                              (outstanding ?q @ queue ?q)
            \<and> map fst (settled (drain n ex_backend ?q)) = map promise (added ?q)"
    unfolding Let_def by blast
  from this [rule_format, OF n] n show ?thesis
    by (simp add: ex_events_state outstanding_def get_waveform_call_def settlement_of_def
        ex_backend_def)
qed

text \<open>
  Claim C5, as amended.  With both devices configured, the last request of \<open>playSound\<close>
  is the command \<open>play_dual_output\<close> with exactly the file path, the two device ids,
  the volume (the sound's own, or else the dashboard's) and the optional trim start and
  end; the sound id is not an argument.  The playback id the command returns is stored
  in the map under the sound id.  The command \<open>get_waveform\<close> is invoked with a file
  path and a number of peaks, and the record of peaks and \<open>duration_ms\<close> it returns
  resolves the request.
\<close>

theorem exposed_command_arguments:
  "(truthy device1 \<and> truthy device2 \<longrightarrow>
      fst (last (snd (playSound device1 device2 sound stop_error play_result st))) =
        Invoke ''play_dual_output''
          [(''filePath'', JStr (file_path sound)),
           (''deviceId1'', JStr device1),
           (''deviceId2'', JStr device2),
           (''volume'', JNum (case sound_volume sound of Some v \<Rightarrow> v | None \<Rightarrow> volume st)),
           (''trimStartMs'', nullable (trim_start_ms sound)),
           (''trimEndMs'', nullable (trim_end_ms sound))]
      \<and> map_get (playingSoundsRef
            (fst (playSound device1 device2 sound stop_error (Inr playbackId) st)))
          (sound_id sound) = Some playbackId)
   \<and> invoked (add fp np initial_queue) =
       [Invoke ''get_waveform'' [(''filePath'', JStr fp), (''numPeaks'', JNum np)]]
   \<and> settled (invoke_returns 0 (Inr \<lparr>peaks = ps, duration_ms = d\<rparr>) (add fp np initial_queue)) =
       [(0, Resolve \<lparr>peaks = ps, duration_ms = d\<rparr>)]"
proof -
  have vol: "volume (fst (playSound_restart sound stop_error st)) = volume st"
    by (simp add: playSound_restart_def untrack_def Let_def split: option.splits)
  have "fst (last (snd (playSound device1 device2 sound stop_error play_result st))) =
        Invoke ''play_dual_output'' (play_args device1 device2 sound (volume st))"
    if "truthy device1" "truthy device2"
    using that vol
    by (simp add: playSound_def playSound_start_def mark_playing_def play_settled_def split_beta Let_def split: sum.splits)
  moreover have "map_get (playingSoundsRef
            (fst (playSound device1 device2 sound stop_error (Inr playbackId) st)))
          (sound_id sound) = Some playbackId"
    if "truthy device1" "truthy device2"
    using that
    by (simp add: playSound_def playSound_start_def mark_playing_def play_settled_def split_beta Let_def map_get_map_set_same)
  moreover have "invoked (add fp np initial_queue) =
       [Invoke ''get_waveform'' [(''filePath'', JStr fp), (''numPeaks'', JNum np)]]"
    by (simp add: add_def process_def process_loop_def initial_queue_def Let_def
        get_waveform_call_def)
  moreover have "settled (invoke_returns 0 (Inr \<lparr>peaks = ps, duration_ms = d\<rparr>)
         (add fp np initial_queue)) = [(0, Resolve \<lparr>peaks = ps, duration_ms = d\<rparr>)]"
    by (simp add: add_def process_def process_loop_def initial_queue_def Let_def
        invoke_returns_def remove_nth_def)
  ultimately show ?thesis by (simp add: play_args_def)
qed

text \<open>Witness for C5: \<open>s1\<close> is played for the first time on two configured devices.\<close>

theorem exposed_command_arguments_witness:
  "truthy ''dev1'' \<and> truthy ''dev2''
   \<and> fst (last (snd (playSound ''dev1'' ''dev2'' ex_sound None (Inr ''p1'') initial_dashboard))) =
       Invoke ''play_dual_output''
         [(''filePath'', JStr ''C:/sounds/airhorn.mp3''), (''deviceId1'', JStr ''dev1''),
          (''deviceId2'', JStr ''dev2''), (''volume'', JNum 0.8), (''trimStartMs'', JNull),
          (''trimEndMs'', JNum 1500)]
   \<and> map_get (playingSoundsRef
         (fst (playSound ''dev1'' ''dev2'' ex_sound None (Inr ''p1'') initial_dashboard))) ''s1''
       = Some ''p1''"
proof -
  have h: "truthy ''dev1'' \<and> truthy ''dev2''" by (simp add: truthy_def)
  from exposed_command_arguments [of "''dev1''" "''dev2''" ex_sound None "Inr ''p1''"
      initial_dashboard "''p1''"] h
  show ?thesis by (simp add: ex_sound_def nullable_def)
qed

text \<open>
  Counterexample to C5 as stated: the one command \<open>playSound\<close> issues for the sound
  \<open>s1\<close> has no argument that carries the sound id.
\<close>

theorem play_command_sound_id_counterexample:
  "sound_id ex_sound = ''s1''
   \<and> map fst (snd (playSound ''dev1'' ''dev2'' ex_sound None (Inr ''p1'') initial_dashboard)) =
       [Invoke ''play_dual_output''
          [(''filePath'', JStr ''C:/sounds/airhorn.mp3''), (''deviceId1'', JStr ''dev1''),
           (''deviceId2'', JStr ''dev2''), (''volume'', JNum 0.8), (''trimStartMs'', JNull),
           (''trimEndMs'', JNum 1500)]]
   \<and> JStr (sound_id ex_sound) \<notin> snd ` set (play_args ''dev1'' ''dev2'' ex_sound (volume initial_dashboard))
   \<and> ''soundId'' \<notin> fst ` set (play_args ''dev1'' ''dev2'' ex_sound (volume initial_dashboard))"
  by (simp add: playSound_def playSound_restart_def playSound_start_def mark_playing_def play_settled_def ex_sound_def
      initial_dashboard_def truthy_def Let_def play_args_def nullable_def)

section \<open>Properties of the hotkey display\<close>

subsection \<open>Splitting and joining\<close>

lemma split_from_not_Nil: "split_from sep acc s \<noteq> []"
  by (induction sep acc s rule: split_from.induct) auto

lemma join_Cons: "ps \<noteq> [] \<Longrightarrow> join sep (p # ps) = p @ sep @ join sep ps"
  by (cases ps) simp_all

lemma join_split_from: "join sep (split_from sep acc s) = acc @ s"
proof (induction sep acc s rule: split_from.induct)
  case (1 sep acc)
  show ?case by simp
next
  case (2 sep acc c cs)
  show ?case
  proof (cases "sep \<noteq> [] \<and> prefix sep (c # cs)")
    case True
    let ?rest = "drop (length sep) (c # cs)"
    from True have eq: "sep @ ?rest = c # cs"
      by (metis append_take_drop_id prefix_def append_eq_conv_conj)
    from True have "split_from sep acc (c # cs) = acc # split_from sep [] ?rest" by simp
    then have "join sep (split_from sep acc (c # cs)) = acc @ sep @ join sep (split_from sep [] ?rest)"
      by (simp add: join_Cons split_from_not_Nil del: split_from.simps)
    also have "join sep (split_from sep [] ?rest) = ?rest"
      using 2(1) [OF True] by simp
    finally show ?thesis using eq by simp
  next
    case False
    with 2 show ?thesis by auto
  qed
qed

lemma split_from_at_sep:
  "sep \<noteq> [] \<Longrightarrow> split_from sep acc (sep @ rest) = acc # split_from sep [] rest"
  by (cases sep) simp_all

text \<open>No occurrence of the separator starts inside \<open>p\<close> when \<open>t\<close> follows.\<close>

lemma split_from_skip:
  assumes "\<forall>i<length p. \<not> prefix sep (drop i (p @ t))"
  shows "split_from sep acc (p @ t) = split_from sep (acc @ p) t"
  using assms
proof (induction p arbitrary: acc)
  case Nil
  show ?case by simp
next
  case (Cons c cs)
  from Cons.prems have "\<not> prefix sep (drop 0 ((c # cs) @ t))" by blast
  then have here: "\<not> prefix sep (c # cs @ t)" by simp
  have "\<forall>i<length cs. \<not> prefix sep (drop i (cs @ t))"
  proof (intro allI impI)
    fix i assume "i < length cs"
    then have "Suc i < length (c # cs)" by simp
    with Cons.prems have "\<not> prefix sep (drop (Suc i) ((c # cs) @ t))" by blast
    then show "\<not> prefix sep (drop i (cs @ t))" by simp
  qed
  from Cons.IH [OF this, of "acc @ [c]"] here show ?case by simp
qed

lemma split_from_join:
  assumes "sep \<noteq> []"
    and "\<forall>p \<in> set ps. \<forall>rest. \<forall>i<length p. \<not> prefix sep (drop i (p @ sep @ rest))"
    and "split_from sep [] l = [l]"
  shows "split_from sep [] (join sep (ps @ [l])) = ps @ [l]"
  using assms(2)
proof (induction ps)
  case Nil
  show ?case using assms(3) by simp
next
  case (Cons p ps)
  let ?J = "join sep (ps @ [l])"
  have "join sep ((p # ps) @ [l]) = p @ sep @ ?J" by (simp add: join_Cons)
  moreover have "split_from sep [] (p @ sep @ ?J) = split_from sep ([] @ p) (sep @ ?J)"
    using Cons.prems by (intro split_from_skip) simp
  moreover have "split_from sep p (sep @ ?J) = p # split_from sep [] ?J"
    using assms(1) by (rule split_from_at_sep)
  moreover have "split_from sep [] ?J = ps @ [l]"
    using Cons by simp
  ultimately show ?case by simp
qed

text \<open>A piece without the code unit of \<open>+\<close> hides no separator.\<close>

lemma plus_free_no_plus_sep:
  assumes "43 \<notin> set p"
  shows "\<forall>i<length p. \<not> prefix (js ''+'') (drop i (p @ t))"
proof (intro allI impI notI)
  fix i assume i: "i < length p" and pre: "prefix (js ''+'') (drop i (p @ t))"
  from pre obtain r where "drop i (p @ t) = 43 # r" by (auto simp: js_def prefix_def)
  moreover from i have "drop i (p @ t) = p ! i # drop (Suc i) (p @ t)"
    by (simp add: Cons_nth_drop_Suc [symmetric] nth_append)
  ultimately have "p ! i = 43" by simp
  with i assms show False by (metis nth_mem)
qed

lemma plus_free_no_display_sep:
  assumes "43 \<notin> set p" and "t = [] \<or> hd t \<noteq> 43"
  shows "\<forall>i<length p. \<not> prefix (js '' + '') (drop i (p @ t))"
proof (intro allI impI notI)
  fix i assume i: "i < length p" and pre: "prefix (js '' + '') (drop i (p @ t))"
  from pre obtain r where r: "drop i (p @ t) = 32 # 43 # 32 # r"
    by (auto simp: js_def prefix_def)
  then have "drop (Suc i) (p @ t) = 43 # 32 # r"
    by (metis drop_Suc tl_drop list.sel(3))
  show False
  proof (cases "Suc i < length p")
    case True
    then have "drop (Suc i) (p @ t) = p ! Suc i # drop (Suc (Suc i)) (p @ t)"
      by (simp add: Cons_nth_drop_Suc [symmetric] nth_append)
    with \<open>drop (Suc i) (p @ t) = 43 # 32 # r\<close> have "p ! Suc i = 43" by simp
    with True assms(1) show False by (metis nth_mem)
  next
    case False
    with i have "Suc i = length p" by simp
    then have "drop (Suc i) (p @ t) = t" by simp
    with \<open>drop (Suc i) (p @ t) = 43 # 32 # r\<close> assms(2) show False by auto
  qed
qed

lemma split_from_plus_free: "43 \<notin> set p \<Longrightarrow> split_from (js ''+'') [] p = [p]"
  using split_from_skip [of p "js ''+''" "[]" "[]"] plus_free_no_plus_sep [of p "[]"]
  by simp

lemma split_from_display_plus_free: "43 \<notin> set p \<Longrightarrow> split_from (js '' + '') [] p = [p]"
  using split_from_skip [of p "js '' + ''" "[]" "[]"] plus_free_no_display_sep [of p "[]"]
  by simp

lemma split_join_plus:
  assumes "ps \<noteq> []" and "\<forall>p \<in> set ps. 43 \<notin> set p"
  shows "split (join (js ''+'') ps) (js ''+'') = ps"
proof -
  from assms(1) obtain qs l where ps: "ps = qs @ [l]" by (metis rev_exhaust)
  have "split_from (js ''+'') [] (join (js ''+'') (qs @ [l])) = qs @ [l]"
  proof (rule split_from_join)
    show "js ''+'' \<noteq> []" by (simp add: js_def)
    show "\<forall>p\<in>set qs. \<forall>rest. \<forall>i<length p. \<not> prefix (js ''+'') (drop i (p @ js ''+'' @ rest))"
      using assms(2) ps plus_free_no_plus_sep by simp
    show "split_from (js ''+'') [] l = [l]"
      using assms(2) ps by (simp add: split_from_plus_free)
  qed
  with ps show ?thesis by (simp add: split_def js_def)
qed

lemma split_join_display:
  assumes "\<forall>p \<in> set qs. 43 \<notin> set p" and "split_from (js '' + '') [] l = [l]"
  shows "split (join (js '' + '') (qs @ [l])) (js '' + '') = qs @ [l]"
proof -
  have "split_from (js '' + '') [] (join (js '' + '') (qs @ [l])) = qs @ [l]"
  proof (rule split_from_join)
    show "js '' + '' \<noteq> []" by (simp add: js_def)
    have "\<forall>i<length p. \<not> prefix (js '' + '') (drop i (p @ js '' + '' @ rest))"
      if "p \<in> set qs" for p rest
    proof -
      from that assms(1) have "43 \<notin> set p" by simp
      moreover have "js '' + '' @ rest = [] \<or> hd (js '' + '' @ rest) \<noteq> 43"
        by (simp add: js_def)
      ultimately show ?thesis by (rule plus_free_no_display_sep)
    qed
    then show "\<forall>p\<in>set qs. \<forall>rest. \<forall>i<length p.
            \<not> prefix (js '' + '') (drop i (p @ js '' + '' @ rest))"
      by blast
    show "split_from (js '' + '') [] l = [l]" by (rule assms(2))
  qed
  then show ?thesis by (simp add: split_def js_def)
qed

lemma join_split: "sep \<noteq> [] \<Longrightarrow> join sep (split s sep) = s"
  by (simp add: split_def join_split_from)

subsection \<open>The canonical key names, one at a time\<close>

lemma trim_id:
  assumes "s \<noteq> []" and "\<not> is_whitespace (hd s)" and "\<not> is_whitespace (last s)"
  shows "trim s = s"
proof -
  from assms(1,2) have "dropWhile is_whitespace s = s" by (cases s) simp_all
  moreover from assms(1,3) have "dropWhile is_whitespace (rev s) = rev s"
    by (cases "rev s") (simp_all add: hd_rev [symmetric])
  ultimately show ?thesis by (simp add: trim_def)
qed

text \<open>What the round trip needs of a key name \<open>p\<close>.\<close>

lemma listed_names_round_trip:
  "\<forall>p \<in> set canonical_names.
     trim p = p \<and> 43 \<notin> set p \<and> trim (format_part p) = format_part p
     \<and> parse_part (format_part p) = p
     \<and> (p \<noteq> js ''NumPadAdd'' \<longrightarrow> 43 \<notin> set (format_part p))"
  by (simp add: canonical_names_def js_def trim_def is_whitespace_def format_part_def
      parse_part_def startsWith_def is_function_key_def is_digit_def is_letter_def
      toUpperCase_def)

lemma function_key_round_trip:
  assumes "is_function_key p"
  shows "trim p = p \<and> 43 \<notin> set p \<and> format_part p = p \<and> parse_part p = p"
proof -
  from assms obtain ds where p: "p = 70 # ds" and ds: "ds \<noteq> []" "list_all is_digit ds"
    by (auto simp: is_function_key_def split: list.splits)
  from ds(2) have digits: "\<forall>c \<in> set ds. 48 \<le> c \<and> c \<le> 57"
    by (simp add: list_all_iff is_digit_def)
  from ds(1) have "last p \<in> set ds" using p by simp
  with digits have "\<not> is_whitespace (last p)" by (auto simp: is_whitespace_def)
  moreover have "\<not> is_whitespace (hd p)" using p by (simp add: is_whitespace_def)
  ultimately have "trim p = p" using p by (intro trim_id) simp_all
  moreover have "43 \<notin> set p" using p digits by auto
  moreover have "format_part p = p"
    using assms p by (simp add: format_part_def js_def startsWith_def)
  moreover have "parse_part p = p"
    using p by (simp add: parse_part_def js_def startsWith_def)
  ultimately show ?thesis by simp
qed

lemma single_key_round_trip:
  assumes "is_digit c \<or> (65 \<le> c \<and> c \<le> 90)"
  shows "trim [c] = [c] \<and> 43 \<notin> set [c] \<and> format_part [c] = [c] \<and> parse_part [c] = [c]"
proof -
  from assms have c: "48 \<le> c" "c \<le> 90" "c \<le> 57 \<or> 65 \<le> c" by (auto simp: is_digit_def)
  have "\<not> is_whitespace c" using c by (auto simp: is_whitespace_def)
  then have "trim [c] = [c]" by (simp add: trim_def)
  moreover have "43 \<notin> set [c]" using c by simp
  moreover have "format_part [c] = [c]"
    using c by (auto simp: format_part_def js_def startsWith_def is_function_key_def
        is_letter_def toUpperCase_def)
  moreover have "parse_part [c] = [c]"
    using c by (auto simp: parse_part_def js_def startsWith_def)
  ultimately show ?thesis by simp
qed

lemma canonical_round_trip:
  assumes "canonical_key p"
  shows "trim p = p \<and> 43 \<notin> set p \<and> trim (format_part p) = format_part p
     \<and> parse_part (format_part p) = p
     \<and> (p \<noteq> js ''NumPadAdd'' \<longrightarrow> 43 \<notin> set (format_part p))"
proof -
  consider "p \<in> set canonical_names" | "is_function_key p"
    | c where "p = [c]" "is_digit c \<or> (65 \<le> c \<and> c \<le> 90)"
    using assms by (auto simp: canonical_key_def split: list.splits)
  then show ?thesis
  proof cases
    case 1
    with listed_names_round_trip show ?thesis by blast
  next
    case 2
    from function_key_round_trip [OF this] show ?thesis by simp
  next
    case (3 c)
    from single_key_round_trip [OF 3(2)] 3(1) show ?thesis by simp
  qed
qed

lemma numpad_add_display:
  "format_part (js ''NumPadAdd'') = js ''Numpad +''"
  "split_from (js '' + '') [] (js ''Numpad +'') = [js ''Numpad +'']"
  by (simp_all add: format_part_def js_def startsWith_def)

text \<open>
  Where the round trip holds: for every hotkey string whose \<open>+\<close>-separated parts are
  canonical technical key names, with \<open>NumPadAdd\<close> nowhere but in the last part,
  parsing the display form gives the hotkey string back.
\<close>

lemma round_trip_numpad_add_last:
  assumes "\<forall>p \<in> set (split h (js ''+'')). canonical_key p"
    and "js ''NumPadAdd'' \<notin> set (butlast (split h (js ''+'')))"
  shows "parseDisplayHotkey (formatHotkeyForDisplay h) = h"
proof -
  define ps where "ps = split h (js ''+'')"
  have sep: "js ''+'' \<noteq> []" by (simp add: js_def)
  have h: "join (js ''+'') ps = h" unfolding ps_def using sep by (rule join_split)
  have "ps \<noteq> []" by (simp add: ps_def split_def split_from_not_Nil js_def)
  then obtain qs l where ps: "ps = qs @ [l]" by (metis rev_exhaust)
  have canon: "canonical_key p" if "p \<in> set ps" for p
    using that assms(1) by (simp add: ps_def)
  have part: "trim p = p" "trim (format_part p) = format_part p" "parse_part (format_part p) = p"
    if "p \<in> set ps" for p
    using canonical_round_trip [OF canon [OF that]] by simp_all
  have "formatHotkeyForDisplay h = join (js '' + '') (map (\<lambda>part. format_part (trim part)) ps)"
    by (simp add: formatHotkeyForDisplay_def ps_def)
  also have "map (\<lambda>part. format_part (trim part)) ps = map format_part ps"
    using part(1) by (intro map_cong) simp_all
  finally have fmt: "formatHotkeyForDisplay h = join (js '' + '') (map format_part qs @ [format_part l])"
    by (simp add: ps)
  have qs: "\<forall>d \<in> set (map format_part qs). 43 \<notin> set d"
  proof
    fix d assume "d \<in> set (map format_part qs)"
    then obtain q where q: "q \<in> set qs" "d = format_part q" by auto
    from q(1) assms(2) have "q \<noteq> js ''NumPadAdd''" by (auto simp: ps_def [symmetric] ps)
    moreover have "canonical_key q" using q(1) canon by (simp add: ps)
    ultimately show "43 \<notin> set d" using q(2) canonical_round_trip [of q] by simp
  qed
  have l: "split_from (js '' + '') [] (format_part l) = [format_part l]"
  proof (cases "l = js ''NumPadAdd''")
    case True
    then show ?thesis by (simp add: numpad_add_display)
  next
    case False
    moreover have "canonical_key l" using canon by (simp add: ps)
    ultimately have "43 \<notin> set (format_part l)" using canonical_round_trip [of l] by simp
    then show ?thesis by (rule split_from_display_plus_free)
  qed
  have "split (formatHotkeyForDisplay h) (js '' + '') = map format_part qs @ [format_part l]"
    unfolding fmt using qs l by (rule split_join_display)
  then have "parseDisplayHotkey (formatHotkeyForDisplay h) =
      join (js ''+'') (map (\<lambda>p. parse_part (trim (format_part p))) ps)"
    by (simp add: parseDisplayHotkey_def ps comp_def)
  also have "map (\<lambda>p. parse_part (trim (format_part p))) ps = map (\<lambda>p. p) ps"
    using part(2,3) by (intro map_cong) simp_all
  finally show ?thesis using h by simp
qed

text \<open>An instance: \<open>Ctrl+Shift+NumPadAdd\<close> is shown as \<open>Ctrl + Shift + Numpad +\<close>.\<close>

lemma round_trip_numpad_add_last_instance:
  "split (js ''Ctrl+Shift+NumPadAdd'') (js ''+'') = [js ''Ctrl'', js ''Shift'', js ''NumPadAdd'']
   \<and> list_all canonical_key (split (js ''Ctrl+Shift+NumPadAdd'') (js ''+''))
   \<and> formatHotkeyForDisplay (js ''Ctrl+Shift+NumPadAdd'') = js ''Ctrl + Shift + Numpad +''
   \<and> parseDisplayHotkey (formatHotkeyForDisplay (js ''Ctrl+Shift+NumPadAdd'')) =
       js ''Ctrl+Shift+NumPadAdd''"
proof -
  have parts: "split (js ''Ctrl+Shift+NumPadAdd'') (js ''+'') =
      [js ''Ctrl'', js ''Shift'', js ''NumPadAdd'']"
    by (simp add: split_def js_def)
  have canon: "list_all canonical_key [js ''Ctrl'', js ''Shift'', js ''NumPadAdd'']"
    by (simp add: canonical_key_def canonical_names_def js_def)
  have h1: "\<forall>p \<in> set (split (js ''Ctrl+Shift+NumPadAdd'') (js ''+'')). canonical_key p"
    using canon by (simp add: parts)
  have h2: "js ''NumPadAdd'' \<notin> set (butlast (split (js ''Ctrl+Shift+NumPadAdd'') (js ''+'')))"
    by (simp add: parts) (simp add: js_def)
  have fmt: "formatHotkeyForDisplay (js ''Ctrl+Shift+NumPadAdd'') = js ''Ctrl + Shift + Numpad +''"
    by (simp add: formatHotkeyForDisplay_def split_def js_def format_part_def trim_def
        is_whitespace_def startsWith_def)
  from round_trip_numpad_add_last [OF h1 h2] parts canon fmt show ?thesis by simp
qed

text \<open>
  Claim C10.  For every hotkey string whose \<open>+\<close>-separated parts are canonical
  technical key names, parsing the display form is to give the hotkey string back.  The
  code does not: \<open>NumPadAdd\<close> is shown as \<open>Numpad +\<close>, and with another part after it
  the display form holds \<open> + + \<close>, which \<open>parseDisplayHotkey\<close> cuts after \<open>Numpad\<close>,
  so that its own case for \<open>+\<close> is never reached.  \<open>NumPadAdd+A\<close> comes back as
  \<open>Numpad++ A\<close> and \<open>NumPadAdd+Ctrl\<close> as \<open>Numpad++ Ctrl\<close>.
\<close>

theorem hotkey_display_numpad_add_not_restored:
  "list_all canonical_key (split (js ''NumPadAdd+A'') (js ''+''))
   \<and> formatHotkeyForDisplay (js ''NumPadAdd+A'') = js ''Numpad + + A''
   \<and> split (js ''Numpad + + A'') (js '' + '') = [js ''Numpad'', js ''+ A'']
   \<and> parseDisplayHotkey (formatHotkeyForDisplay (js ''NumPadAdd+A'')) = js ''Numpad++ A''
   \<and> parseDisplayHotkey (formatHotkeyForDisplay (js ''NumPadAdd+A'')) \<noteq> js ''NumPadAdd+A''
   \<and> list_all canonical_key (split (js ''NumPadAdd+Ctrl'') (js ''+''))
   \<and> parseDisplayHotkey (formatHotkeyForDisplay (js ''NumPadAdd+Ctrl'')) = js ''Numpad++ Ctrl''"
proof -
  have "list_all canonical_key (split (js ''NumPadAdd+A'') (js ''+''))"
    "list_all canonical_key (split (js ''NumPadAdd+Ctrl'') (js ''+''))"
    by (simp_all add: split_def canonical_key_def canonical_names_def js_def)
  moreover have "formatHotkeyForDisplay (js ''NumPadAdd+A'') = js ''Numpad + + A''"
    "formatHotkeyForDisplay (js ''NumPadAdd+Ctrl'') = js ''Numpad + + Ctrl''"
    by (simp_all add: formatHotkeyForDisplay_def split_def js_def format_part_def trim_def
        is_whitespace_def startsWith_def is_function_key_def is_letter_def toUpperCase_def)
  moreover have "split (js ''Numpad + + A'') (js '' + '') = [js ''Numpad'', js ''+ A'']"
    by (simp add: split_def js_def)
  moreover have "parseDisplayHotkey (js ''Numpad + + A'') = js ''Numpad++ A''"
    "parseDisplayHotkey (js ''Numpad + + Ctrl'') = js ''Numpad++ Ctrl''"
    by (simp_all add: parseDisplayHotkey_def split_def js_def parse_part_def trim_def
        is_whitespace_def startsWith_def)
  moreover have "js ''Numpad++ A'' \<noteq> js ''NumPadAdd+A''" by (simp add: js_def)
  ultimately show ?thesis by simp
qed

end
